theory Spec2Isabelle
  imports Main "HOL-Library.AList" "HOL-Library.Word"
begin

section \<open>conf8n: a hierarchical configuration accessor\<close>

text \<open>
  A shallow embedding of the Go package \<^verbatim>\<open>conf8n\<close> (\<^verbatim>\<open>config.go\<close> and the two
  helpers \<^verbatim>\<open>getValueWithCompositeKey\<close> and \<^verbatim>\<open>toStrMap\<close>). Every function of
  the package is a HOL function of the same name; a method \<^verbatim>\<open>(*T).M\<close> is the
  constant \<open>T_M\<close>, a field \<^verbatim>\<open>T.f\<close> the record selector \<open>T_f\<close>.
\<close>

subsection \<open>Dynamically typed values\<close>

text \<open>
  A Go \<^verbatim>\<open>interface{}\<close> holds nil or a value together with its dynamic type. The
  constructors below are the dynamic types the package looks at, and \<open>VOther\<close> stands
  for a value of any other dynamic type (\<^verbatim>\<open>int64\<close>, a struct, ...), which no type
  assertion of the package accepts.

  \<^item> Go's \<^verbatim>\<open>int\<close> is \<open>int\<close>: the package stores and returns such numbers and never
    computes with them.
  \<^item> A \<^verbatim>\<open>float64\<close> is its 64 bits; the zero value \<^verbatim>\<open>0.0\<close> is the word \<open>0\<close>.
  \<^item> A slice is the list of its elements. The package never compares a slice with nil,
    so the nil slice and the empty slice are the same list \<open>[]\<close>.
  \<^item> A map is \<open>None\<close> (the nil map) or \<open>Some\<close> of its entries, listed in the order in
    which \<^verbatim>\<open>range\<close> yields them. Go leaves that order open, so a statement that is
    to hold of a Go map is proved for every order of the list. A Go map binds a key at
    most once; where a statement depends on that, it says so (\<open>distinct\<close> of the keys of
    a map, \<open>keys_once\<close> of a tree).
    Indexing reads the list with \<open>map_of\<close>.
  \<^item> The key of a \<^verbatim>\<open>map[interface{}]interface{}\<close> is a comparable dynamic value.
\<close>

datatype key =
    KNil
  | KString string
  | KInt int
  | KFloat "64 word"
  | KBool bool
  | KOther nat

datatype "value" =
    VNil
  | VInt int
  | VString string
  | VFloat "64 word"
  | VBool bool
  | VSlice "value list"
  | VStrMap "(string \<times> value) list option"
  | VIMap "(key \<times> value) list option"
  | VOther nat

type_synonym strmap = "(string \<times> value) list option"
type_synonym imap = "(key \<times> value) list option"

text \<open>\<^verbatim>\<open>panic\<close>: the only run-time panic the package can raise by itself.\<close>

datatype panic = IndexOutOfRange

text \<open>An \<^verbatim>\<open>error\<close> built by \<^verbatim>\<open>fmt.Errorf\<close> is its message; \<open>None\<close> is the nil error.\<close>

type_synonym error = "string option"

definition Errorf :: "string \<Rightarrow> error" where
  "Errorf msg = Some msg"

subsection \<open>Primitive operations of the language\<close>

text \<open>
  The comma-ok type assertion \<^verbatim>\<open>x, ok := value.(T)\<close>: the value and \<open>True\<close> when the
  dynamic type is \<^verbatim>\<open>T\<close>, the zero value of \<^verbatim>\<open>T\<close> and \<open>False\<close> otherwise.
\<close>

fun assert_int :: "value \<Rightarrow> int \<times> bool" where
  "assert_int (VInt n) = (n, True)"
| "assert_int _ = (0, False)"

fun assert_string :: "value \<Rightarrow> string \<times> bool" where
  "assert_string (VString s) = (s, True)"
| "assert_string _ = ([], False)"

fun assert_float64 :: "value \<Rightarrow> 64 word \<times> bool" where
  "assert_float64 (VFloat f) = (f, True)"
| "assert_float64 _ = (0, False)"

fun assert_bool :: "value \<Rightarrow> bool \<times> bool" where
  "assert_bool (VBool b) = (b, True)"
| "assert_bool _ = (False, False)"

fun assert_slice :: "value \<Rightarrow> value list \<times> bool" where
  "assert_slice (VSlice xs) = (xs, True)"
| "assert_slice _ = ([], False)"

fun assert_strmap :: "value \<Rightarrow> strmap \<times> bool" where
  "assert_strmap (VStrMap sm) = (sm, True)"
| "assert_strmap _ = (None, False)"

fun assert_imap :: "value \<Rightarrow> imap \<times> bool" where
  "assert_imap (VIMap im) = (im, True)"
| "assert_imap _ = (None, False)"

fun assert_key_string :: "key \<Rightarrow> string \<times> bool" where
  "assert_key_string (KString s) = (s, True)"
| "assert_key_string _ = ([], False)"

text \<open>
  The comma-ok map index \<^verbatim>\<open>x, ok := mp[k]\<close>: reading a nil map is allowed and finds
  nothing; a missing key gives the nil value and \<open>False\<close>.
\<close>

definition map_index :: "strmap \<Rightarrow> string \<Rightarrow> value \<times> bool" where
  "map_index mp k =
     (case mp of
        None \<Rightarrow> (VNil, False)
      | Some entries \<Rightarrow>
          (case map_of entries k of None \<Rightarrow> (VNil, False) | Some x \<Rightarrow> (x, True)))"

text \<open>The entries a \<^verbatim>\<open>range\<close> loop goes through; none for the nil map.\<close>

definition range_entries :: "('k \<times> 'v) list option \<Rightarrow> ('k \<times> 'v) list" where
  "range_entries mp = (case mp of None \<Rightarrow> [] | Some entries \<Rightarrow> entries)"

text \<open>
  \<^verbatim>\<open>strings.Split(s, sep)\<close> of the standard library, for a separator of one byte:
  the substrings between the occurrences of the separator, one more than there are
  occurrences. \<open>Split_from\<close> reads the string from the left and holds the substring
  it is in.
\<close>

fun Split_from :: "string \<Rightarrow> char \<Rightarrow> string \<Rightarrow> string list" where
  "Split_from [] sep chunk = [chunk]"
| "Split_from (c # s) sep chunk =
     (if c = sep then chunk # Split_from s sep [] else Split_from s sep (chunk @ [c]))"

definition Split :: "string \<Rightarrow> char \<Rightarrow> string list" where
  "Split s sep = Split_from s sep []"

subsection \<open>The types of the package\<close>

text \<open>
  The methods have pointer receivers; a receiver is a pointer to a struct, never nil, and
  the struct stands for it. The index \<^verbatim>\<open>i\<close> of a \<^verbatim>\<open>ListIterator\<close> and the
  argument \<^verbatim>\<open>current\<close> of \<^verbatim>\<open>getValueWithCompositeKey\<close> are of Go's type
  \<^verbatim>\<open>int\<close>; they are only ever incremented below the length of a slice, where
  \<^verbatim>\<open>int\<close> does not wrap, and are modelled by \<open>int\<close>.
\<close>

definition SEP :: char where
  "SEP = CHR ''.''"

record Config =
  Config_data :: strmap

record ConfigValue =
  ConfigValue_v :: "value"

record ListIterator =
  ListIterator_a :: "value list"
  ListIterator_i :: int

text \<open>
  \<^verbatim>\<open>MapIterator\<close> embeds a pointer to a \<^verbatim>\<open>ListIterator\<close> of its own, made
  together with it in \<^verbatim>\<open>Iterate\<close> and reachable through it only; the record holds the
  embedded iterator itself.
\<close>

record MapIterator =
  MapIterator_ListIterator :: ListIterator
  MapIterator_m :: strmap

text \<open>The interface \<^verbatim>\<open>Iterator\<close> with its three implementations.\<close>

datatype Iterator =
    ListIt ListIterator
  | MapIt MapIterator
  | EmptyIt

subsection \<open>Tree accessor\<close>

definition NewConfig :: "strmap \<Rightarrow> Config" where
  "NewConfig fromData = \<lparr>Config_data = fromData\<rparr>"

fun toStrMap_range :: "(key \<times> value) list \<Rightarrow> (string \<times> value) list \<Rightarrow> strmap" where
  "toStrMap_range [] strMap = Some strMap"
| "toStrMap_range ((k, x) # rest) strMap =
     (case assert_key_string k of
        (asStr, True) \<Rightarrow> toStrMap_range rest (AList.update asStr x strMap)
      | (_, False) \<Rightarrow> None)"

text \<open>
  \<^verbatim>\<open>toStrMap\<close>: \<open>toStrMap_range\<close> is its loop over \<^verbatim>\<open>asIMap\<close>, started on the
  empty map that \<^verbatim>\<open>make\<close> returns; \<^verbatim>\<open>strMap[asStr] = v\<close> is \<open>AList.update\<close>.
\<close>

definition toStrMap :: "value \<Rightarrow> strmap" where
  "toStrMap val =
     (case assert_strmap val of
        (alreadyStrMap, True) \<Rightarrow> alreadyStrMap
      | (_, False) \<Rightarrow>
          (case assert_imap val of
             (asIMap, True) \<Rightarrow> toStrMap_range (range_entries asIMap) []
           | (_, False) \<Rightarrow> None))"

text \<open>
  \<^verbatim>\<open>getValueWithCompositeKey\<close>. The index expression \<^verbatim>\<open>keyChunks[current]\<close> panics
  out of range.
\<close>

function getValueWithCompositeKey :: "strmap \<Rightarrow> string list \<Rightarrow> int \<Rightarrow> panic + value" where
  "getValueWithCompositeKey mp keyChunks current =
     (if current < 0 \<or> int (length keyChunks) \<le> current then Inl IndexOutOfRange
      else
        let data = fst (map_index mp (keyChunks ! nat current)) in
        if current = int (length keyChunks) - 1 then Inr data
        else
          (case toStrMap data of
             Some data' \<Rightarrow> getValueWithCompositeKey (Some data') keyChunks (current + 1)
           | None \<Rightarrow> Inr VNil))"
  by pat_completeness auto
termination
  by (relation "measure (\<lambda>(mp, keyChunks, current). nat (int (length keyChunks) - current))") auto

declare getValueWithCompositeKey.simps [simp del]

definition Config_Get :: "Config \<Rightarrow> string \<Rightarrow> panic + ConfigValue" where
  "Config_Get c k =
     (case map_index (Config_data c) k of
        (x, True) \<Rightarrow> Inr \<lparr>ConfigValue_v = x\<rparr>
      | (_, False) \<Rightarrow>
          (case getValueWithCompositeKey (Config_data c) (Split k SEP) 0 of
             Inl p \<Rightarrow> Inl p
           | Inr x \<Rightarrow> Inr \<lparr>ConfigValue_v = x\<rparr>))"

subsection \<open>Value wrapper\<close>

definition ConfigValue_IsSet :: "ConfigValue \<Rightarrow> bool" where
  "ConfigValue_IsSet cv = (ConfigValue_v cv \<noteq> VNil)"

definition ConfigValue_IsSlice :: "ConfigValue \<Rightarrow> bool" where
  "ConfigValue_IsSlice cv = snd (assert_slice (ConfigValue_v cv))"

definition ConfigValue_IsMap :: "ConfigValue \<Rightarrow> bool" where
  "ConfigValue_IsMap cv =
     (if snd (assert_strmap (ConfigValue_v cv)) then True
      else snd (assert_imap (ConfigValue_v cv)))"

definition ConfigValue_Int :: "ConfigValue \<Rightarrow> int" where
  "ConfigValue_Int cv = fst (assert_int (ConfigValue_v cv))"

definition ConfigValue_String :: "ConfigValue \<Rightarrow> string" where
  "ConfigValue_String cv = fst (assert_string (ConfigValue_v cv))"

definition ConfigValue_Float :: "ConfigValue \<Rightarrow> 64 word" where
  "ConfigValue_Float cv = fst (assert_float64 (ConfigValue_v cv))"

definition ConfigValue_Bool :: "ConfigValue \<Rightarrow> bool" where
  "ConfigValue_Bool cv = fst (assert_bool (ConfigValue_v cv))"

definition ConfigValue_Raw :: "ConfigValue \<Rightarrow> value" where
  "ConfigValue_Raw cv = ConfigValue_v cv"

definition ConfigValue_Config :: "ConfigValue \<Rightarrow> Config" where
  "ConfigValue_Config cv = NewConfig (toStrMap (ConfigValue_v cv))"

definition ConfigValue_MustInt :: "ConfigValue \<Rightarrow> int \<times> error" where
  "ConfigValue_MustInt cv =
     (if \<not> ConfigValue_IsSet cv then (0, Errorf ''Value is not set'')
      else
        (case assert_int (ConfigValue_v cv) of
           (n, True) \<Rightarrow> (n, None)
         | (_, False) \<Rightarrow> (0, Errorf ''Value is not int'')))"

definition ConfigValue_MustString :: "ConfigValue \<Rightarrow> string \<times> error" where
  "ConfigValue_MustString cv =
     (if \<not> ConfigValue_IsSet cv then ([], Errorf ''Value is not set'')
      else
        (case assert_string (ConfigValue_v cv) of
           (s, True) \<Rightarrow> (s, None)
         | (_, False) \<Rightarrow> ([], Errorf ''Value is not string'')))"

definition ConfigValue_MustFloat :: "ConfigValue \<Rightarrow> 64 word \<times> error" where
  "ConfigValue_MustFloat cv =
     (if \<not> ConfigValue_IsSet cv then (0, Errorf ''Value is not set'')
      else
        (case assert_float64 (ConfigValue_v cv) of
           (f, True) \<Rightarrow> (f, None)
         | (_, False) \<Rightarrow> (0, Errorf ''Value is not float'')))"

definition ConfigValue_MustBool :: "ConfigValue \<Rightarrow> bool \<times> error" where
  "ConfigValue_MustBool cv =
     (if \<not> ConfigValue_IsSet cv then (False, Errorf ''Value is not set'')
      else
        (case assert_bool (ConfigValue_v cv) of
           (b, True) \<Rightarrow> (b, None)
         | (_, False) \<Rightarrow> (False, Errorf ''Value is not bool'')))"

definition ConfigValue_DefInt :: "ConfigValue \<Rightarrow> int \<Rightarrow> int" where
  "ConfigValue_DefInt cv def =
     (case assert_int (ConfigValue_v cv) of (n, True) \<Rightarrow> n | (_, False) \<Rightarrow> def)"

definition ConfigValue_DefString :: "ConfigValue \<Rightarrow> string \<Rightarrow> string" where
  "ConfigValue_DefString cv def =
     (case assert_string (ConfigValue_v cv) of (s, True) \<Rightarrow> s | (_, False) \<Rightarrow> def)"

definition ConfigValue_DefFloat :: "ConfigValue \<Rightarrow> 64 word \<Rightarrow> 64 word" where
  "ConfigValue_DefFloat cv def =
     (case assert_float64 (ConfigValue_v cv) of (f, True) \<Rightarrow> f | (_, False) \<Rightarrow> def)"

definition ConfigValue_DefBool :: "ConfigValue \<Rightarrow> bool \<Rightarrow> bool" where
  "ConfigValue_DefBool cv def =
     (case assert_bool (ConfigValue_v cv) of (b, True) \<Rightarrow> b | (_, False) \<Rightarrow> def)"

definition ConfigValue_Count :: "ConfigValue \<Rightarrow> int" where
  "ConfigValue_Count cv =
     (case assert_slice (ConfigValue_v cv) of
        (xs, True) \<Rightarrow> int (length xs)
      | (_, False) \<Rightarrow> 0)"

subsection \<open>Iterators\<close>

definition ListIterator_Finished :: "ListIterator \<Rightarrow> bool" where
  "ListIterator_Finished it = (ListIterator_i it = int (length (ListIterator_a it)))"

definition ListIterator_Next :: "ListIterator \<Rightarrow> ListIterator" where
  "ListIterator_Next it =
     (if \<not> ListIterator_Finished it then it\<lparr>ListIterator_i := ListIterator_i it + 1\<rparr>
      else it)"

text \<open>\<^verbatim>\<open>i.a[i.i]\<close> panics when the index is not within the slice.\<close>

definition ListIterator_Value :: "ListIterator \<Rightarrow> panic + ConfigValue" where
  "ListIterator_Value it =
     (if ListIterator_i it < 0 \<or> int (length (ListIterator_a it)) \<le> ListIterator_i it
      then Inl IndexOutOfRange
      else Inr \<lparr>ConfigValue_v = ListIterator_a it ! nat (ListIterator_i it)\<rparr>)"

definition ListIterator_Index :: "ListIterator \<Rightarrow> int" where
  "ListIterator_Index it = ListIterator_i it"

definition ListIterator_Key :: "ListIterator \<Rightarrow> string" where
  "ListIterator_Key it = []"

definition MapIterator_Key :: "MapIterator \<Rightarrow> panic + string" where
  "MapIterator_Key it =
     (case ListIterator_Value (MapIterator_ListIterator it) of
        Inl p \<Rightarrow> Inl p
      | Inr cv \<Rightarrow> Inr (ConfigValue_String cv))"

definition MapIterator_Value :: "MapIterator \<Rightarrow> panic + ConfigValue" where
  "MapIterator_Value it =
     (case MapIterator_Key it of
        Inl p \<Rightarrow> Inl p
      | Inr k \<Rightarrow> Inr \<lparr>ConfigValue_v = fst (map_index (MapIterator_m it) k)\<rparr>)"

text \<open>\<^verbatim>\<open>EmptyIterator\<close> is a struct with no field: its methods are constants.\<close>

definition EmptyIterator_Value :: ConfigValue where
  "EmptyIterator_Value = \<lparr>ConfigValue_v = VNil\<rparr>"

definition EmptyIterator_Finished :: bool where
  "EmptyIterator_Finished = True"

definition EmptyIterator_Index :: int where
  "EmptyIterator_Index = 0"

definition EmptyIterator_Key :: string where
  "EmptyIterator_Key = []"

text \<open>
  The methods of the interface, dispatched on the implementation. \<^verbatim>\<open>MapIterator\<close>
  has \<^verbatim>\<open>Next\<close>, \<^verbatim>\<open>Finished\<close> and \<^verbatim>\<open>Index\<close> from the \<^verbatim>\<open>ListIterator\<close> it
  embeds, and \<^verbatim>\<open>Value\<close> and \<^verbatim>\<open>Key\<close> of its own. \<^verbatim>\<open>Next\<close> updates the iterator
  in place; here it returns the updated iterator.
\<close>

fun Iterator_Next :: "Iterator \<Rightarrow> Iterator" where
  "Iterator_Next (ListIt it) = ListIt (ListIterator_Next it)"
| "Iterator_Next (MapIt it) =
     MapIt (it\<lparr>MapIterator_ListIterator := ListIterator_Next (MapIterator_ListIterator it)\<rparr>)"
| "Iterator_Next EmptyIt = EmptyIt"

fun Iterator_Finished :: "Iterator \<Rightarrow> bool" where
  "Iterator_Finished (ListIt it) = ListIterator_Finished it"
| "Iterator_Finished (MapIt it) = ListIterator_Finished (MapIterator_ListIterator it)"
| "Iterator_Finished EmptyIt = EmptyIterator_Finished"

fun Iterator_Index :: "Iterator \<Rightarrow> int" where
  "Iterator_Index (ListIt it) = ListIterator_Index it"
| "Iterator_Index (MapIt it) = ListIterator_Index (MapIterator_ListIterator it)"
| "Iterator_Index EmptyIt = EmptyIterator_Index"

fun Iterator_Key :: "Iterator \<Rightarrow> panic + string" where
  "Iterator_Key (ListIt it) = Inr (ListIterator_Key it)"
| "Iterator_Key (MapIt it) = MapIterator_Key it"
| "Iterator_Key EmptyIt = Inr EmptyIterator_Key"

fun Iterator_Value :: "Iterator \<Rightarrow> panic + ConfigValue" where
  "Iterator_Value (ListIt it) = ListIterator_Value it"
| "Iterator_Value (MapIt it) = MapIterator_Value it"
| "Iterator_Value EmptyIt = Inr EmptyIterator_Value"

fun mapGetKeys_range :: "(string \<times> value) list \<Rightarrow> value list \<Rightarrow> value list" where
  "mapGetKeys_range [] acc = acc"
| "mapGetKeys_range ((k, _) # rest) acc = mapGetKeys_range rest (acc @ [VString k])"

text \<open>\<^verbatim>\<open>mapGetKeys\<close>: \<open>mapGetKeys_range\<close> is its loop, appending to the empty slice.\<close>

definition mapGetKeys :: "strmap \<Rightarrow> value list" where
  "mapGetKeys mp = mapGetKeys_range (range_entries mp) []"

definition ConfigValue_Iterate :: "ConfigValue \<Rightarrow> Iterator" where
  "ConfigValue_Iterate cv =
     (case assert_slice (ConfigValue_v cv) of
        (xs, True) \<Rightarrow> ListIt \<lparr>ListIterator_a = xs, ListIterator_i = 0\<rparr>
      | (_, False) \<Rightarrow>
          (case toStrMap (ConfigValue_v cv) of
             Some entries \<Rightarrow>
               MapIt \<lparr>MapIterator_ListIterator =
                        \<lparr>ListIterator_a = mapGetKeys (Some entries), ListIterator_i = 0\<rparr>,
                      MapIterator_m = Some entries\<rparr>
           | None \<Rightarrow> EmptyIt))"

text \<open>
  The loop of the documentation of \<^verbatim>\<open>Iterate\<close> (Example 2),
  \<^verbatim>\<open>for i := ...Iterate(); !i.Finished(); i.Next() { ... i.Key() ... i.Value() ... }\<close>,
  with a body that records \<^verbatim>\<open>i.Key()\<close> and \<^verbatim>\<open>i.Value()\<close>. The result is \<open>None\<close>
  when the loop does not end, \<open>Some (Inl p)\<close> when it panics and \<open>Some (Inr visited)\<close>
  when it ends.
\<close>

partial_function (option) iterate_loop ::
  "Iterator \<Rightarrow> (string \<times> ConfigValue) list \<Rightarrow> (panic + (string \<times> ConfigValue) list) option"
where
  "iterate_loop it visited =
     (if Iterator_Finished it then Some (Inr visited)
      else
        (case Iterator_Key it of
           Inl p \<Rightarrow> Some (Inl p)
         | Inr k \<Rightarrow>
             (case Iterator_Value it of
                Inl p \<Rightarrow> Some (Inl p)
              | Inr x \<Rightarrow> iterate_loop (Iterator_Next it) (visited @ [(k, x)]))))"

subsection \<open>Notions of the specification\<close>

text \<open>The string under a key of dynamic type \<^verbatim>\<open>string\<close>.\<close>

definition key_string :: "key \<Rightarrow> string" where
  "key_string k = fst (assert_key_string k)"

definition string_keys :: "(key \<times> value) list \<Rightarrow> bool" where
  "string_keys entries = list_all (\<lambda>(k, x). snd (assert_key_string k)) entries"

definition unwrap_keys :: "(key \<times> value) list \<Rightarrow> (string \<times> value) list" where
  "unwrap_keys entries = map (\<lambda>(k, x). (key_string k, x)) entries"

text \<open>
  A value viewed as a string-keyed map, as the specification words it: a string-keyed
  map is one, with the entries it has (none when it is nil); an interface-keyed map
  whose keys are all strings is one, with its entries under those strings; nothing
  else is. This says what the view is and is written without the function
  \<open>toStrMap\<close> of the source.
\<close>

fun view_as_strmap :: "value \<Rightarrow> (string \<times> value) list option" where
  "view_as_strmap (VStrMap mp) = Some (range_entries mp)"
| "view_as_strmap (VIMap im) =
     (if string_keys (range_entries im) then Some (unwrap_keys (range_entries im)) else None)"
| "view_as_strmap _ = None"

text \<open>
  The descent as the specification words it: segment by segment through nested
  string-keyed maps, the value under the last segment at the end, nil when a segment
  is absent or the value of a segment before the last cannot be viewed as a
  string-keyed map.
\<close>

fun descend :: "(string \<times> value) list \<Rightarrow> string list \<Rightarrow> value" where
  "descend entries [] = VNil"
| "descend entries [seg] = (case map_of entries seg of None \<Rightarrow> VNil | Some x \<Rightarrow> x)"
| "descend entries (seg # rest) =
     (case map_of entries seg of
        None \<Rightarrow> VNil
      | Some x \<Rightarrow>
          (case view_as_strmap x of None \<Rightarrow> VNil | Some sub \<Rightarrow> descend sub rest))"

text \<open>
  A path of segments resolves in a map when every segment is bound on the way and the
  value of every segment before the last can be viewed as a string-keyed map. A key is
  absent from a configuration when the top-level map does not bind it and its path
  does not resolve.
\<close>

fun resolves :: "(string \<times> value) list \<Rightarrow> string list \<Rightarrow> bool" where
  "resolves entries [] = False"
| "resolves entries [seg] = (case map_of entries seg of None \<Rightarrow> False | Some x \<Rightarrow> True)"
| "resolves entries (seg # rest) =
     (case map_of entries seg of
        None \<Rightarrow> False
      | Some x \<Rightarrow>
          (case view_as_strmap x of None \<Rightarrow> False | Some sub \<Rightarrow> resolves sub rest))"

definition absent :: "Config \<Rightarrow> string \<Rightarrow> bool" where
  "absent c k =
     (map_of (range_entries (Config_data c)) k = None \<and>
      \<not> resolves (range_entries (Config_data c)) (Split k SEP))"

text \<open>
  A Go map binds a key at most once. \<open>keys_once x\<close>: this holds of every map in the
  tree \<open>x\<close>, the entries of a map being the list of them.
\<close>

fun keys_once :: "value \<Rightarrow> bool" where
  "keys_once (VSlice xs) = (\<forall>x \<in> set xs. keys_once x)"
| "keys_once (VStrMap None) = True"
| "keys_once (VStrMap (Some entries)) =
     (distinct (map fst entries) \<and> (\<forall>(k, x) \<in> set entries. keys_once x))"
| "keys_once (VIMap None) = True"
| "keys_once (VIMap (Some entries)) =
     (distinct (map fst entries) \<and> (\<forall>(k, x) \<in> set entries. keys_once x))"
| "keys_once _ = True"



fun dotted :: "string list \<Rightarrow> string" where
  "dotted [] = []"
| "dotted [seg] = seg"
| "dotted (seg # rest) = seg @ SEP # dotted rest"

subsection \<open>Example configurations\<close>

text \<open>
  The configuration of the README, as \<^verbatim>\<open>NewConfigFromYaml\<close> builds it: the top-level
  map has string keys, the nested maps are of type \<^verbatim>\<open>map[interface{}]interface{}\<close>.
\<close>

definition readme_config :: Config where
  "readme_config =
     NewConfig (Some
       [(''db'', VIMap (Some
          [(KString ''host'', VString ''192.168.0.1''),
           (KString ''account'', VIMap (Some
              [(KString ''login'', VString ''db_user''),
               (KString ''password'', VString ''xxxxxxx'')])),
           (KString ''tables'',
              VSlice [VString ''posts'', VString ''comments'', VString ''likes''])]))])"

text \<open>Three nested maps: the value \<open>1\<close> stands on the third level, under \<^verbatim>\<open>a.b.c\<close>.\<close>

definition three_levels :: Config where
  "three_levels =
     NewConfig (Some [(''a'', VStrMap (Some [(''b'', VStrMap (Some [(''c'', VInt 1)]))]))])"

text \<open>
  A top-level map that binds the literal key \<^verbatim>\<open>a.b\<close> to nil and also holds a
  section \<^verbatim>\<open>a\<close> with a key \<^verbatim>\<open>b\<close>.
\<close>

definition shadowed :: Config where
  "shadowed =
     NewConfig (Some [(''a.b'', VNil), (''a'', VStrMap (Some [(''b'', VInt 1)]))])"

text \<open>
  A configuration whose section \<^verbatim>\<open>sec\<close> is the top-level map of \<open>shadowed\<close>; and one
  with a section that is a nil map, a section with a key that is not a string, and a
  list.
\<close>

definition sectioned :: Config where
  "sectioned =
     NewConfig (Some
       [(''sec'', VStrMap (Some [(''a.b'', VNil), (''a'', VStrMap (Some [(''b'', VInt 1)]))]))])"

definition odd_sections :: Config where
  "odd_sections =
     NewConfig (Some
       [(''n'', VStrMap None),
        (''i'', VIMap (Some [(KInt 1, VInt 2), (KString ''b'', VInt 3)])),
        (''l'', VSlice [VInt 7])])"

section \<open>The package over a store\<close>

text \<open>
  The functions above take a map or a slice as the tree of values it holds. In Go a map
  and a slice are references: a \<^verbatim>\<open>Config\<close>, the values taken from it and the
  iterators over them share the objects they refer to. To say what the package writes,
  the same functions are given once more over a store of objects, with references in
  place of trees. Each function keeps its name, with \<open>_st\<close> added; each takes the store
  and, when its source allocates or assigns, returns the store.

  \<^item> An address is an index into the store; a new object is put at its end.
  \<^item> A slice is its header: the address of its array, the offset of its first element
    and its length. Its capacity is the room the array has left after the offset. The
    nil slice has length \<open>0\<close>.
  \<^item> The objects are arrays, maps of both kinds, and the \<^verbatim>\<open>ListIterator\<close> structs,
    the only structs of the package a method assigns to (\<^verbatim>\<open>i.i++\<close>). A
    \<^verbatim>\<open>Config\<close>, a \<^verbatim>\<open>ConfigValue\<close> and a \<^verbatim>\<open>MapIterator\<close> are never assigned to
    after they are made and stay values.
  \<^item> A reference of a Go program points to an object of its type. Read through any
    other address, a map or an array has no entries, and an assignment does nothing.
\<close>

type_synonym addr = nat

record slice =
  slice_array :: addr
  slice_off :: nat
  slice_len :: nat

datatype rvalue =
    RNil
  | RInt int
  | RString string
  | RFloat "64 word"
  | RBool bool
  | RSlice slice
  | RStrMap "addr option"
  | RIMap "addr option"
  | ROther nat

datatype obj =
    OArray "rvalue list"
  | OStrMap "(string \<times> rvalue) list"
  | OIMap "(key \<times> rvalue) list"
  | OListIterator slice int

type_synonym store = "obj list"

text \<open>The objects that make up configuration data: arrays and maps.\<close>

fun is_data :: "obj \<Rightarrow> bool" where
  "is_data (OListIterator a i) = False"
| "is_data _ = True"

subsection \<open>Primitive operations over the store\<close>

definition alloc :: "store \<Rightarrow> obj \<Rightarrow> addr \<times> store" where
  "alloc h ob = (length h, h @ [ob])"

definition object_at :: "store \<Rightarrow> addr \<Rightarrow> obj option" where
  "object_at h p = (if p < length h then Some (h ! p) else None)"

definition strmap_entries :: "store \<Rightarrow> addr option \<Rightarrow> (string \<times> rvalue) list" where
  "strmap_entries h mp =
     (case mp of
        None \<Rightarrow> []
      | Some p \<Rightarrow> (case object_at h p of Some (OStrMap entries) \<Rightarrow> entries | _ \<Rightarrow> []))"

definition imap_entries :: "store \<Rightarrow> addr option \<Rightarrow> (key \<times> rvalue) list" where
  "imap_entries h mp =
     (case mp of
        None \<Rightarrow> []
      | Some p \<Rightarrow> (case object_at h p of Some (OIMap entries) \<Rightarrow> entries | _ \<Rightarrow> []))"

definition array_elems :: "store \<Rightarrow> addr \<Rightarrow> rvalue list" where
  "array_elems h p = (case object_at h p of Some (OArray elems) \<Rightarrow> elems | _ \<Rightarrow> [])"

text \<open>\<^verbatim>\<open>x, ok := mp[k]\<close>.\<close>

definition map_index_st :: "store \<Rightarrow> addr option \<Rightarrow> string \<Rightarrow> rvalue \<times> bool" where
  "map_index_st h mp k =
     (case map_of (strmap_entries h mp) k of None \<Rightarrow> (RNil, False) | Some x \<Rightarrow> (x, True))"

text \<open>\<^verbatim>\<open>mp[k] = x\<close>, on a map that is not nil.\<close>

definition map_assign :: "store \<Rightarrow> addr \<Rightarrow> string \<Rightarrow> rvalue \<Rightarrow> store" where
  "map_assign h p k x =
     (case object_at h p of
        Some (OStrMap entries) \<Rightarrow> h[p := OStrMap (AList.update k x entries)]
      | _ \<Rightarrow> h)"

text \<open>\<^verbatim>\<open>make(map[string]interface{}, n)\<close> and \<^verbatim>\<open>make([]interface{}, 0, n)\<close>.\<close>

definition make_strmap :: "store \<Rightarrow> addr \<times> store" where
  "make_strmap h = alloc h (OStrMap [])"

definition make_slice :: "store \<Rightarrow> nat \<Rightarrow> slice \<times> store" where
  "make_slice h n =
     (case alloc h (OArray (replicate n RNil)) of
        (p, h') \<Rightarrow> (\<lparr>slice_array = p, slice_off = 0, slice_len = 0\<rparr>, h'))"

text \<open>\<^verbatim>\<open>a[i]\<close>: a panic when the index is not within the slice.\<close>

definition slice_index :: "store \<Rightarrow> slice \<Rightarrow> int \<Rightarrow> panic + rvalue" where
  "slice_index h a i =
     (if i < 0 \<or> int (slice_len a) \<le> i then Inl IndexOutOfRange
      else if length (array_elems h (slice_array a)) \<le> slice_off a + nat i
        then Inl IndexOutOfRange
      else Inr (array_elems h (slice_array a) ! (slice_off a + nat i)))"

text \<open>
  \<^verbatim>\<open>append(a, x)\<close>: where the array has room, the element is written into it behind
  the slice; otherwise the elements move to a new array. (Go may give the new array
  more room than the one element; nothing here depends on how much.)
\<close>

definition append_st :: "store \<Rightarrow> slice \<Rightarrow> rvalue \<Rightarrow> slice \<times> store" where
  "append_st h a x =
     (let elems = array_elems h (slice_array a); top = slice_off a + slice_len a in
      if top < length elems
      then (a\<lparr>slice_len := slice_len a + 1\<rparr>, h[slice_array a := OArray (elems[top := x])])
      else
        (case alloc h (OArray (take (slice_len a) (drop (slice_off a) elems) @ [x])) of
           (p, h') \<Rightarrow> (\<lparr>slice_array = p, slice_off = 0, slice_len = slice_len a + 1\<rparr>, h')))"

text \<open>The comma-ok type assertions.\<close>

fun rassert_int :: "rvalue \<Rightarrow> int \<times> bool" where
  "rassert_int (RInt n) = (n, True)"
| "rassert_int _ = (0, False)"

fun rassert_string :: "rvalue \<Rightarrow> string \<times> bool" where
  "rassert_string (RString s) = (s, True)"
| "rassert_string _ = ([], False)"

fun rassert_float64 :: "rvalue \<Rightarrow> 64 word \<times> bool" where
  "rassert_float64 (RFloat f) = (f, True)"
| "rassert_float64 _ = (0, False)"

fun rassert_bool :: "rvalue \<Rightarrow> bool \<times> bool" where
  "rassert_bool (RBool b) = (b, True)"
| "rassert_bool _ = (False, False)"

fun rassert_slice :: "rvalue \<Rightarrow> slice \<times> bool" where
  "rassert_slice (RSlice a) = (a, True)"
| "rassert_slice _ = (\<lparr>slice_array = 0, slice_off = 0, slice_len = 0\<rparr>, False)"

fun rassert_strmap :: "rvalue \<Rightarrow> addr option \<times> bool" where
  "rassert_strmap (RStrMap mp) = (mp, True)"
| "rassert_strmap _ = (None, False)"

fun rassert_imap :: "rvalue \<Rightarrow> addr option \<times> bool" where
  "rassert_imap (RIMap mp) = (mp, True)"
| "rassert_imap _ = (None, False)"

subsection \<open>Tree accessor over the store\<close>

record Config_st =
  Config_st_data :: "addr option"

record ConfigValue_st =
  ConfigValue_st_v :: rvalue

datatype Iterator_st =
    ListIt_st addr
  | MapIt_st addr "addr option"
  | EmptyIt_st

definition NewConfig_st :: "addr option \<Rightarrow> Config_st" where
  "NewConfig_st fromData = \<lparr>Config_st_data = fromData\<rparr>"

fun toStrMap_range_st ::
  "(key \<times> rvalue) list \<Rightarrow> addr \<Rightarrow> store \<Rightarrow> addr option \<times> store" where
  "toStrMap_range_st [] strMap h = (Some strMap, h)"
| "toStrMap_range_st ((k, x) # rest) strMap h =
     (case assert_key_string k of
        (asStr, True) \<Rightarrow> toStrMap_range_st rest strMap (map_assign h strMap asStr x)
      | (_, False) \<Rightarrow> (None, h))"

definition toStrMap_st :: "store \<Rightarrow> rvalue \<Rightarrow> addr option \<times> store" where
  "toStrMap_st h val =
     (case rassert_strmap val of
        (alreadyStrMap, True) \<Rightarrow> (alreadyStrMap, h)
      | (_, False) \<Rightarrow>
          (case rassert_imap val of
             (asIMap, True) \<Rightarrow>
               (case make_strmap h of
                  (strMap, h') \<Rightarrow> toStrMap_range_st (imap_entries h' asIMap) strMap h')
           | (_, False) \<Rightarrow> (None, h)))"

function getValueWithCompositeKey_st ::
  "store \<Rightarrow> addr option \<Rightarrow> string list \<Rightarrow> int \<Rightarrow> (panic + rvalue) \<times> store" where
  "getValueWithCompositeKey_st h mp keyChunks current =
     (if current < 0 \<or> int (length keyChunks) \<le> current then (Inl IndexOutOfRange, h)
      else
        let data = fst (map_index_st h mp (keyChunks ! nat current)) in
        if current = int (length keyChunks) - 1 then (Inr data, h)
        else
          (case toStrMap_st h data of
             (Some data', h') \<Rightarrow>
               getValueWithCompositeKey_st h' (Some data') keyChunks (current + 1)
           | (None, h') \<Rightarrow> (Inr RNil, h')))"
  by pat_completeness auto
termination
  by (relation "measure (\<lambda>(h, mp, keyChunks, current). nat (int (length keyChunks) - current))")
    auto

declare getValueWithCompositeKey_st.simps [simp del]

definition Config_Get_st ::
  "store \<Rightarrow> Config_st \<Rightarrow> string \<Rightarrow> (panic + ConfigValue_st) \<times> store" where
  "Config_Get_st h c k =
     (case map_index_st h (Config_st_data c) k of
        (x, True) \<Rightarrow> (Inr \<lparr>ConfigValue_st_v = x\<rparr>, h)
      | (_, False) \<Rightarrow>
          (case getValueWithCompositeKey_st h (Config_st_data c) (Split k SEP) 0 of
             (Inl p, h') \<Rightarrow> (Inl p, h')
           | (Inr x, h') \<Rightarrow> (Inr \<lparr>ConfigValue_st_v = x\<rparr>, h')))"

subsection \<open>Value wrapper over the store\<close>

text \<open>
  The accessors read the \<^verbatim>\<open>ConfigValue\<close> they are called on, its dynamic type and,
  for a scalar or a slice header, the value itself: they take no store.
\<close>

definition ConfigValue_IsSet_st :: "ConfigValue_st \<Rightarrow> bool" where
  "ConfigValue_IsSet_st cv = (ConfigValue_st_v cv \<noteq> RNil)"

definition ConfigValue_IsSlice_st :: "ConfigValue_st \<Rightarrow> bool" where
  "ConfigValue_IsSlice_st cv = snd (rassert_slice (ConfigValue_st_v cv))"

definition ConfigValue_IsMap_st :: "ConfigValue_st \<Rightarrow> bool" where
  "ConfigValue_IsMap_st cv =
     (if snd (rassert_strmap (ConfigValue_st_v cv)) then True
      else snd (rassert_imap (ConfigValue_st_v cv)))"

definition ConfigValue_Int_st :: "ConfigValue_st \<Rightarrow> int" where
  "ConfigValue_Int_st cv = fst (rassert_int (ConfigValue_st_v cv))"

definition ConfigValue_String_st :: "ConfigValue_st \<Rightarrow> string" where
  "ConfigValue_String_st cv = fst (rassert_string (ConfigValue_st_v cv))"

definition ConfigValue_Float_st :: "ConfigValue_st \<Rightarrow> 64 word" where
  "ConfigValue_Float_st cv = fst (rassert_float64 (ConfigValue_st_v cv))"

definition ConfigValue_Bool_st :: "ConfigValue_st \<Rightarrow> bool" where
  "ConfigValue_Bool_st cv = fst (rassert_bool (ConfigValue_st_v cv))"

definition ConfigValue_Raw_st :: "ConfigValue_st \<Rightarrow> rvalue" where
  "ConfigValue_Raw_st cv = ConfigValue_st_v cv"

definition ConfigValue_Config_st :: "store \<Rightarrow> ConfigValue_st \<Rightarrow> Config_st \<times> store" where
  "ConfigValue_Config_st h cv =
     (case toStrMap_st h (ConfigValue_st_v cv) of (mp, h') \<Rightarrow> (NewConfig_st mp, h'))"

definition ConfigValue_MustInt_st :: "ConfigValue_st \<Rightarrow> int \<times> error" where
  "ConfigValue_MustInt_st cv =
     (if \<not> ConfigValue_IsSet_st cv then (0, Errorf ''Value is not set'')
      else
        (case rassert_int (ConfigValue_st_v cv) of
           (n, True) \<Rightarrow> (n, None)
         | (_, False) \<Rightarrow> (0, Errorf ''Value is not int'')))"

definition ConfigValue_MustString_st :: "ConfigValue_st \<Rightarrow> string \<times> error" where
  "ConfigValue_MustString_st cv =
     (if \<not> ConfigValue_IsSet_st cv then ([], Errorf ''Value is not set'')
      else
        (case rassert_string (ConfigValue_st_v cv) of
           (s, True) \<Rightarrow> (s, None)
         | (_, False) \<Rightarrow> ([], Errorf ''Value is not string'')))"

definition ConfigValue_MustFloat_st :: "ConfigValue_st \<Rightarrow> 64 word \<times> error" where
  "ConfigValue_MustFloat_st cv =
     (if \<not> ConfigValue_IsSet_st cv then (0, Errorf ''Value is not set'')
      else
        (case rassert_float64 (ConfigValue_st_v cv) of
           (f, True) \<Rightarrow> (f, None)
         | (_, False) \<Rightarrow> (0, Errorf ''Value is not float'')))"

definition ConfigValue_MustBool_st :: "ConfigValue_st \<Rightarrow> bool \<times> error" where
  "ConfigValue_MustBool_st cv =
     (if \<not> ConfigValue_IsSet_st cv then (False, Errorf ''Value is not set'')
      else
        (case rassert_bool (ConfigValue_st_v cv) of
           (b, True) \<Rightarrow> (b, None)
         | (_, False) \<Rightarrow> (False, Errorf ''Value is not bool'')))"

definition ConfigValue_DefInt_st :: "ConfigValue_st \<Rightarrow> int \<Rightarrow> int" where
  "ConfigValue_DefInt_st cv def =
     (case rassert_int (ConfigValue_st_v cv) of (n, True) \<Rightarrow> n | (_, False) \<Rightarrow> def)"

definition ConfigValue_DefString_st :: "ConfigValue_st \<Rightarrow> string \<Rightarrow> string" where
  "ConfigValue_DefString_st cv def =
     (case rassert_string (ConfigValue_st_v cv) of (s, True) \<Rightarrow> s | (_, False) \<Rightarrow> def)"

definition ConfigValue_DefFloat_st :: "ConfigValue_st \<Rightarrow> 64 word \<Rightarrow> 64 word" where
  "ConfigValue_DefFloat_st cv def =
     (case rassert_float64 (ConfigValue_st_v cv) of (f, True) \<Rightarrow> f | (_, False) \<Rightarrow> def)"

definition ConfigValue_DefBool_st :: "ConfigValue_st \<Rightarrow> bool \<Rightarrow> bool" where
  "ConfigValue_DefBool_st cv def =
     (case rassert_bool (ConfigValue_st_v cv) of (b, True) \<Rightarrow> b | (_, False) \<Rightarrow> def)"

definition ConfigValue_Count_st :: "ConfigValue_st \<Rightarrow> int" where
  "ConfigValue_Count_st cv =
     (case rassert_slice (ConfigValue_st_v cv) of
        (a, True) \<Rightarrow> int (slice_len a)
      | (_, False) \<Rightarrow> 0)"

subsection \<open>Iterators over the store\<close>

text \<open>The fields \<^verbatim>\<open>a\<close> and \<^verbatim>\<open>i\<close> of the \<^verbatim>\<open>ListIterator\<close> at an address.\<close>

definition ListIterator_st_a :: "store \<Rightarrow> addr \<Rightarrow> slice" where
  "ListIterator_st_a h p =
     (case object_at h p of
        Some (OListIterator a i) \<Rightarrow> a
      | _ \<Rightarrow> \<lparr>slice_array = 0, slice_off = 0, slice_len = 0\<rparr>)"

definition ListIterator_st_i :: "store \<Rightarrow> addr \<Rightarrow> int" where
  "ListIterator_st_i h p = (case object_at h p of Some (OListIterator a i) \<Rightarrow> i | _ \<Rightarrow> 0)"

definition ListIterator_Finished_st :: "store \<Rightarrow> addr \<Rightarrow> bool" where
  "ListIterator_Finished_st h p =
     (ListIterator_st_i h p = int (slice_len (ListIterator_st_a h p)))"

text \<open>\<^verbatim>\<open>i.i++\<close> assigns to the iterator at the address.\<close>

definition ListIterator_Next_st :: "store \<Rightarrow> addr \<Rightarrow> store" where
  "ListIterator_Next_st h p =
     (if \<not> ListIterator_Finished_st h p
      then
        (case object_at h p of
           Some (OListIterator a i) \<Rightarrow> h[p := OListIterator a (i + 1)]
         | _ \<Rightarrow> h)
      else h)"

definition ListIterator_Value_st :: "store \<Rightarrow> addr \<Rightarrow> panic + ConfigValue_st" where
  "ListIterator_Value_st h p =
     (case slice_index h (ListIterator_st_a h p) (ListIterator_st_i h p) of
        Inl e \<Rightarrow> Inl e
      | Inr x \<Rightarrow> Inr \<lparr>ConfigValue_st_v = x\<rparr>)"

definition ListIterator_Index_st :: "store \<Rightarrow> addr \<Rightarrow> int" where
  "ListIterator_Index_st h p = ListIterator_st_i h p"

definition ListIterator_Key_st :: "store \<Rightarrow> addr \<Rightarrow> string" where
  "ListIterator_Key_st h p = []"

definition MapIterator_Key_st :: "store \<Rightarrow> addr \<Rightarrow> addr option \<Rightarrow> panic + string" where
  "MapIterator_Key_st h p mp =
     (case ListIterator_Value_st h p of
        Inl e \<Rightarrow> Inl e
      | Inr cv \<Rightarrow> Inr (ConfigValue_String_st cv))"

definition MapIterator_Value_st ::
  "store \<Rightarrow> addr \<Rightarrow> addr option \<Rightarrow> panic + ConfigValue_st" where
  "MapIterator_Value_st h p mp =
     (case MapIterator_Key_st h p mp of
        Inl e \<Rightarrow> Inl e
      | Inr k \<Rightarrow> Inr \<lparr>ConfigValue_st_v = fst (map_index_st h mp k)\<rparr>)"

fun Iterator_Next_st :: "store \<Rightarrow> Iterator_st \<Rightarrow> store" where
  "Iterator_Next_st h (ListIt_st p) = ListIterator_Next_st h p"
| "Iterator_Next_st h (MapIt_st p mp) = ListIterator_Next_st h p"
| "Iterator_Next_st h EmptyIt_st = h"

fun Iterator_Finished_st :: "store \<Rightarrow> Iterator_st \<Rightarrow> bool" where
  "Iterator_Finished_st h (ListIt_st p) = ListIterator_Finished_st h p"
| "Iterator_Finished_st h (MapIt_st p mp) = ListIterator_Finished_st h p"
| "Iterator_Finished_st h EmptyIt_st = True"

fun Iterator_Index_st :: "store \<Rightarrow> Iterator_st \<Rightarrow> int" where
  "Iterator_Index_st h (ListIt_st p) = ListIterator_Index_st h p"
| "Iterator_Index_st h (MapIt_st p mp) = ListIterator_Index_st h p"
| "Iterator_Index_st h EmptyIt_st = 0"

fun Iterator_Key_st :: "store \<Rightarrow> Iterator_st \<Rightarrow> panic + string" where
  "Iterator_Key_st h (ListIt_st p) = Inr (ListIterator_Key_st h p)"
| "Iterator_Key_st h (MapIt_st p mp) = MapIterator_Key_st h p mp"
| "Iterator_Key_st h EmptyIt_st = Inr []"

fun Iterator_Value_st :: "store \<Rightarrow> Iterator_st \<Rightarrow> panic + ConfigValue_st" where
  "Iterator_Value_st h (ListIt_st p) = ListIterator_Value_st h p"
| "Iterator_Value_st h (MapIt_st p mp) = MapIterator_Value_st h p mp"
| "Iterator_Value_st h EmptyIt_st = Inr \<lparr>ConfigValue_st_v = RNil\<rparr>"

fun mapGetKeys_range_st ::
  "(string \<times> rvalue) list \<Rightarrow> slice \<Rightarrow> store \<Rightarrow> slice \<times> store" where
  "mapGetKeys_range_st [] a h = (a, h)"
| "mapGetKeys_range_st ((k, _) # rest) a h =
     (case append_st h a (RString k) of (a', h') \<Rightarrow> mapGetKeys_range_st rest a' h')"

definition mapGetKeys_st :: "store \<Rightarrow> addr option \<Rightarrow> slice \<times> store" where
  "mapGetKeys_st h mp =
     (case make_slice h (length (strmap_entries h mp)) of
        (a, h') \<Rightarrow> mapGetKeys_range_st (strmap_entries h' mp) a h')"

definition ConfigValue_Iterate_st :: "store \<Rightarrow> ConfigValue_st \<Rightarrow> Iterator_st \<times> store" where
  "ConfigValue_Iterate_st h cv =
     (case rassert_slice (ConfigValue_st_v cv) of
        (a, True) \<Rightarrow> (case alloc h (OListIterator a 0) of (p, h') \<Rightarrow> (ListIt_st p, h'))
      | (_, False) \<Rightarrow>
          (case toStrMap_st h (ConfigValue_st_v cv) of
             (Some mp, h1) \<Rightarrow>
               (case mapGetKeys_st h1 (Some mp) of
                  (keys, h2) \<Rightarrow>
                    (case alloc h2 (OListIterator keys 0) of
                       (p, h3) \<Rightarrow> (MapIt_st p (Some mp), h3)))
           | (None, h1) \<Rightarrow> (EmptyIt_st, h1)))"

subsection \<open>Sequences of calls\<close>

text \<open>
  A client of the package holds the configurations, values and iterators that its calls
  have returned, and the results of the accessors. A call names the object it is made
  on by its position among those the client holds; a call on a position that holds
  nothing does nothing.
\<close>

datatype result =
    ResBool bool
  | ResInt int
  | ResString string
  | ResFloat "64 word"
  | ResRaw rvalue
  | ResError error
  | ResPanic panic

record client =
  client_store :: store
  client_configs :: "Config_st list"
  client_values :: "ConfigValue_st list"
  client_iterators :: "Iterator_st list"
  client_results :: "result list"

datatype call =
    Call_Get nat string
  | Call_IsSet nat
  | Call_IsSlice nat
  | Call_IsMap nat
  | Call_Int nat
  | Call_String nat
  | Call_Float nat
  | Call_Bool nat
  | Call_Raw nat
  | Call_Config nat
  | Call_MustInt nat
  | Call_MustString nat
  | Call_MustFloat nat
  | Call_MustBool nat
  | Call_DefInt nat int
  | Call_DefString nat string
  | Call_DefFloat nat "64 word"
  | Call_DefBool nat bool
  | Call_Count nat
  | Call_Iterate nat
  | Call_Next nat
  | Call_Finished nat
  | Call_Index nat
  | Call_Key nat
  | Call_Value nat

definition add_results :: "client \<Rightarrow> result list \<Rightarrow> client" where
  "add_results s rs = s\<lparr>client_results := client_results s @ rs\<rparr>"

definition on_value :: "client \<Rightarrow> nat \<Rightarrow> (ConfigValue_st \<Rightarrow> result list) \<Rightarrow> client" where
  "on_value s n f =
     (if n < length (client_values s) then add_results s (f (client_values s ! n)) else s)"

definition on_iterator :: "client \<Rightarrow> nat \<Rightarrow> (Iterator_st \<Rightarrow> result list) \<Rightarrow> client" where
  "on_iterator s n f =
     (if n < length (client_iterators s) then add_results s (f (client_iterators s ! n))
      else s)"

fun step :: "call \<Rightarrow> client \<Rightarrow> client" where
  "step (Call_Get n k) s =
     (if n < length (client_configs s)
      then
        (case Config_Get_st (client_store s) (client_configs s ! n) k of
           (Inl e, h') \<Rightarrow> add_results (s\<lparr>client_store := h'\<rparr>) [ResPanic e]
         | (Inr cv, h') \<Rightarrow> s\<lparr>client_store := h', client_values := client_values s @ [cv]\<rparr>)
      else s)"
| "step (Call_IsSet n) s = on_value s n (\<lambda>cv. [ResBool (ConfigValue_IsSet_st cv)])"
| "step (Call_IsSlice n) s = on_value s n (\<lambda>cv. [ResBool (ConfigValue_IsSlice_st cv)])"
| "step (Call_IsMap n) s = on_value s n (\<lambda>cv. [ResBool (ConfigValue_IsMap_st cv)])"
| "step (Call_Int n) s = on_value s n (\<lambda>cv. [ResInt (ConfigValue_Int_st cv)])"
| "step (Call_String n) s = on_value s n (\<lambda>cv. [ResString (ConfigValue_String_st cv)])"
| "step (Call_Float n) s = on_value s n (\<lambda>cv. [ResFloat (ConfigValue_Float_st cv)])"
| "step (Call_Bool n) s = on_value s n (\<lambda>cv. [ResBool (ConfigValue_Bool_st cv)])"
| "step (Call_Raw n) s = on_value s n (\<lambda>cv. [ResRaw (ConfigValue_Raw_st cv)])"
| "step (Call_Config n) s =
     (if n < length (client_values s)
      then
        (case ConfigValue_Config_st (client_store s) (client_values s ! n) of
           (c, h') \<Rightarrow> s\<lparr>client_store := h', client_configs := client_configs s @ [c]\<rparr>)
      else s)"
| "step (Call_MustInt n) s =
     on_value s n (\<lambda>cv. case ConfigValue_MustInt_st cv of (x, e) \<Rightarrow> [ResInt x, ResError e])"
| "step (Call_MustString n) s =
     on_value s n (\<lambda>cv. case ConfigValue_MustString_st cv of (x, e) \<Rightarrow> [ResString x, ResError e])"
| "step (Call_MustFloat n) s =
     on_value s n (\<lambda>cv. case ConfigValue_MustFloat_st cv of (x, e) \<Rightarrow> [ResFloat x, ResError e])"
| "step (Call_MustBool n) s =
     on_value s n (\<lambda>cv. case ConfigValue_MustBool_st cv of (x, e) \<Rightarrow> [ResBool x, ResError e])"
| "step (Call_DefInt n def) s = on_value s n (\<lambda>cv. [ResInt (ConfigValue_DefInt_st cv def)])"
| "step (Call_DefString n def) s =
     on_value s n (\<lambda>cv. [ResString (ConfigValue_DefString_st cv def)])"
| "step (Call_DefFloat n def) s =
     on_value s n (\<lambda>cv. [ResFloat (ConfigValue_DefFloat_st cv def)])"
| "step (Call_DefBool n def) s = on_value s n (\<lambda>cv. [ResBool (ConfigValue_DefBool_st cv def)])"
| "step (Call_Count n) s = on_value s n (\<lambda>cv. [ResInt (ConfigValue_Count_st cv)])"
| "step (Call_Iterate n) s =
     (if n < length (client_values s)
      then
        (case ConfigValue_Iterate_st (client_store s) (client_values s ! n) of
           (it, h') \<Rightarrow> s\<lparr>client_store := h', client_iterators := client_iterators s @ [it]\<rparr>)
      else s)"
| "step (Call_Next n) s =
     (if n < length (client_iterators s)
      then s\<lparr>client_store := Iterator_Next_st (client_store s) (client_iterators s ! n)\<rparr>
      else s)"
| "step (Call_Finished n) s =
     on_iterator s n (\<lambda>it. [ResBool (Iterator_Finished_st (client_store s) it)])"
| "step (Call_Index n) s =
     on_iterator s n (\<lambda>it. [ResInt (Iterator_Index_st (client_store s) it)])"
| "step (Call_Key n) s =
     on_iterator s n
       (\<lambda>it. case Iterator_Key_st (client_store s) it of
          Inl e \<Rightarrow> [ResPanic e]
        | Inr k \<Rightarrow> [ResString k])"
| "step (Call_Value n) s =
     (if n < length (client_iterators s)
      then
        (case Iterator_Value_st (client_store s) (client_iterators s ! n) of
           Inl e \<Rightarrow> add_results s [ResPanic e]
         | Inr cv \<Rightarrow> s\<lparr>client_values := client_values s @ [cv]\<rparr>)
      else s)"

fun run :: "call list \<Rightarrow> client \<Rightarrow> client" where
  "run [] s = s"
| "run (c # cs) s = run cs (step c s)"

text \<open>
  Every array and map of the store \<open>h\<close> is in the store \<open>h'\<close>, at its address and with
  the elements and entries it had.
\<close>

definition data_unchanged :: "store \<Rightarrow> store \<Rightarrow> bool" where
  "data_unchanged h h' =
     (length h \<le> length h' \<and>
      list_all (\<lambda>p. is_data (h ! p) \<longrightarrow> h' ! p = h ! p) [0..<length h])"

text \<open>
  A small store: at address \<open>0\<close> a top-level map with a section \<^verbatim>\<open>a\<close> (the
  interface-keyed map at \<open>1\<close>) and a slice \<^verbatim>\<open>l\<close> (over the array at \<open>2\<close>); and a
  client that holds the \<^verbatim>\<open>Config\<close> of the top-level map.
\<close>

definition small_store :: store where
  "small_store =
     [OStrMap [(''a'', RIMap (Some 1)),
               (''l'', RSlice \<lparr>slice_array = 2, slice_off = 0, slice_len = 2\<rparr>)],
      OIMap [(KString ''b'', RInt 1)],
      OArray [RInt 7, RInt 8]]"

definition small_client :: client where
  "small_client =
     \<lparr>client_store = small_store,
      client_configs = [NewConfig_st (Some 0)],
      client_values = [],
      client_iterators = [],
      client_results = []\<rparr>"

subsection \<open>Trees and references\<close>

text \<open>
  \<open>repr h r x\<close>: in the store \<open>h\<close> the reference \<open>r\<close> stands for the tree \<open>x\<close>. A scalar
  stands for itself, a slice for the list of what its elements stand for, a map for
  the entries of its object, key by key and in their order.
\<close>

inductive repr :: "store \<Rightarrow> rvalue \<Rightarrow> value \<Rightarrow> bool" for h :: store where
  repr_Nil: "repr h RNil VNil"
| repr_Int: "repr h (RInt n) (VInt n)"
| repr_String: "repr h (RString s) (VString s)"
| repr_Float: "repr h (RFloat f) (VFloat f)"
| repr_Bool: "repr h (RBool b) (VBool b)"
| repr_Other: "repr h (ROther n) (VOther n)"
| repr_Slice:
    "slice_off a + slice_len a \<le> length (array_elems h (slice_array a)) \<Longrightarrow>
     list_all2 (repr h)
       (take (slice_len a) (drop (slice_off a) (array_elems h (slice_array a)))) xs \<Longrightarrow>
     repr h (RSlice a) (VSlice xs)"
| repr_StrMap_nil: "repr h (RStrMap None) (VStrMap None)"
| repr_StrMap:
    "object_at h p = Some (OStrMap rentries) \<Longrightarrow>
     list_all2 (\<lambda>re e. fst re = fst e \<and> repr h (snd re) (snd e)) rentries entries \<Longrightarrow>
     repr h (RStrMap (Some p)) (VStrMap (Some entries))"
| repr_IMap_nil: "repr h (RIMap None) (VIMap None)"
| repr_IMap:
    "object_at h p = Some (OIMap rentries) \<Longrightarrow>
     list_all2 (\<lambda>re e. fst re = fst e \<and> repr h (snd re) (snd e)) rentries entries \<Longrightarrow>
     repr h (RIMap (Some p)) (VIMap (Some entries))"

code_pred repr .

text \<open>The same for a map reference and a map.\<close>

definition repr_strmap :: "store \<Rightarrow> addr option \<Rightarrow> strmap \<Rightarrow> bool" where
  "repr_strmap h mp m = repr h (RStrMap mp) (VStrMap m)"

text \<open>
  An iterator in the store stands for an iterator over trees when its index is the
  same and its slice and its map stand for the list and the map of the other.
\<close>

definition repr_ListIterator :: "store \<Rightarrow> addr \<Rightarrow> ListIterator \<Rightarrow> bool" where
  "repr_ListIterator h p it =
     (\<exists>a. object_at h p = Some (OListIterator a (ListIterator_i it)) \<and>
        repr h (RSlice a) (VSlice (ListIterator_a it)))"

fun repr_Iterator :: "store \<Rightarrow> Iterator_st \<Rightarrow> Iterator \<Rightarrow> bool" where
  "repr_Iterator h (ListIt_st p) (ListIt it) = repr_ListIterator h p it"
| "repr_Iterator h (MapIt_st p mp) (MapIt it) =
     (repr_ListIterator h p (MapIterator_ListIterator it) \<and>
      repr_strmap h mp (MapIterator_m it))"
| "repr_Iterator h EmptyIt_st EmptyIt = True"
| "repr_Iterator h _ _ = False"

section \<open>Properties\<close>

subsection \<open>Coercion accessors\<close>

text \<open>
  C3. The plain accessors \<^verbatim>\<open>Int\<close>, \<^verbatim>\<open>String\<close>, \<^verbatim>\<open>Float\<close> and \<^verbatim>\<open>Bool\<close>
  return the underlying value unchanged when it has the requested dynamic type, and the
  zero value (\<open>0\<close>, the empty string, \<open>0.0\<close>, \<open>False\<close>) when it has any other dynamic
  type or is nil (not set).
\<close>

theorem plain_accessors:
  "(ConfigValue_v cv = VInt n \<longrightarrow> ConfigValue_Int cv = n) \<and>
   ((\<forall>k. ConfigValue_v cv \<noteq> VInt k) \<longrightarrow> ConfigValue_Int cv = 0) \<and>
   (ConfigValue_v cv = VString s \<longrightarrow> ConfigValue_String cv = s) \<and>
   ((\<forall>t. ConfigValue_v cv \<noteq> VString t) \<longrightarrow> ConfigValue_String cv = []) \<and>
   (ConfigValue_v cv = VFloat f \<longrightarrow> ConfigValue_Float cv = f) \<and>
   ((\<forall>g. ConfigValue_v cv \<noteq> VFloat g) \<longrightarrow> ConfigValue_Float cv = 0) \<and>
   (ConfigValue_v cv = VBool b \<longrightarrow> ConfigValue_Bool cv = b) \<and>
   ((\<forall>d. ConfigValue_v cv \<noteq> VBool d) \<longrightarrow> ConfigValue_Bool cv = False)"
  unfolding ConfigValue_Int_def ConfigValue_String_def ConfigValue_Float_def
    ConfigValue_Bool_def
  by (cases "ConfigValue_v cv") auto

theorem plain_accessors_witness:
  "ConfigValue_Int \<lparr>ConfigValue_v = VInt 7\<rparr> = 7 \<and>
   ConfigValue_Int \<lparr>ConfigValue_v = VNil\<rparr> = 0 \<and>
   ConfigValue_String \<lparr>ConfigValue_v = VString ''db''\<rparr> = ''db'' \<and>
   ConfigValue_String \<lparr>ConfigValue_v = VInt 7\<rparr> = [] \<and>
   ConfigValue_Float \<lparr>ConfigValue_v = VFloat 5\<rparr> = 5 \<and>
   ConfigValue_Float \<lparr>ConfigValue_v = VString ''db''\<rparr> = 0 \<and>
   ConfigValue_Bool \<lparr>ConfigValue_v = VBool True\<rparr> = True \<and>
   ConfigValue_Bool \<lparr>ConfigValue_v = VNil\<rparr> = False"
  using plain_accessors [of "\<lparr>ConfigValue_v = VInt 7\<rparr>" 7 "''db''" 5 True]
    plain_accessors [of "\<lparr>ConfigValue_v = VNil\<rparr>" 7 "''db''" 5 True]
    plain_accessors [of "\<lparr>ConfigValue_v = VString ''db''\<rparr>" 7 "''db''" 5 True]
    plain_accessors [of "\<lparr>ConfigValue_v = VFloat 5\<rparr>" 7 "''db''" 5 True]
    plain_accessors [of "\<lparr>ConfigValue_v = VBool True\<rparr>" 7 "''db''" 5 True]
  by simp

text \<open>
  C4. Each \<^verbatim>\<open>Must\<close> accessor returns the value and the nil error when the underlying
  value has the requested dynamic type; the zero value and the error
  \<^verbatim>\<open>Value is not set\<close> when it is nil; the zero value and the error
  \<^verbatim>\<open>Value is not <type>\<close> when it is set and has another dynamic type. So the error
  is nil exactly when the value has the requested type.
\<close>

theorem must_accessors:
  "(ConfigValue_v cv = VInt n \<longrightarrow> ConfigValue_MustInt cv = (n, None)) \<and>
   (ConfigValue_v cv = VString s \<longrightarrow> ConfigValue_MustString cv = (s, None)) \<and>
   (ConfigValue_v cv = VFloat f \<longrightarrow> ConfigValue_MustFloat cv = (f, None)) \<and>
   (ConfigValue_v cv = VBool b \<longrightarrow> ConfigValue_MustBool cv = (b, None)) \<and>
   (ConfigValue_v cv = VNil \<longrightarrow>
      ConfigValue_MustInt cv = (0, Errorf ''Value is not set'') \<and>
      ConfigValue_MustString cv = ([], Errorf ''Value is not set'') \<and>
      ConfigValue_MustFloat cv = (0, Errorf ''Value is not set'') \<and>
      ConfigValue_MustBool cv = (False, Errorf ''Value is not set'')) \<and>
   (ConfigValue_v cv \<noteq> VNil \<and> (\<forall>k. ConfigValue_v cv \<noteq> VInt k) \<longrightarrow>
      ConfigValue_MustInt cv = (0, Errorf ''Value is not int'')) \<and>
   (ConfigValue_v cv \<noteq> VNil \<and> (\<forall>t. ConfigValue_v cv \<noteq> VString t) \<longrightarrow>
      ConfigValue_MustString cv = ([], Errorf ''Value is not string'')) \<and>
   (ConfigValue_v cv \<noteq> VNil \<and> (\<forall>g. ConfigValue_v cv \<noteq> VFloat g) \<longrightarrow>
      ConfigValue_MustFloat cv = (0, Errorf ''Value is not float'')) \<and>
   (ConfigValue_v cv \<noteq> VNil \<and> (\<forall>d. ConfigValue_v cv \<noteq> VBool d) \<longrightarrow>
      ConfigValue_MustBool cv = (False, Errorf ''Value is not bool'')) \<and>
   (snd (ConfigValue_MustInt cv) = None) = (\<exists>k. ConfigValue_v cv = VInt k) \<and>
   (snd (ConfigValue_MustString cv) = None) = (\<exists>t. ConfigValue_v cv = VString t) \<and>
   (snd (ConfigValue_MustFloat cv) = None) = (\<exists>g. ConfigValue_v cv = VFloat g) \<and>
   (snd (ConfigValue_MustBool cv) = None) = (\<exists>d. ConfigValue_v cv = VBool d)"
  unfolding ConfigValue_MustInt_def ConfigValue_MustString_def ConfigValue_MustFloat_def
    ConfigValue_MustBool_def ConfigValue_IsSet_def Errorf_def
  by (cases "ConfigValue_v cv") auto

theorem must_accessors_witness:
  "ConfigValue_MustInt \<lparr>ConfigValue_v = VInt 7\<rparr> = (7, None) \<and>
   ConfigValue_MustString \<lparr>ConfigValue_v = VInt 7\<rparr> = ([], Some ''Value is not string'') \<and>
   ConfigValue_MustFloat \<lparr>ConfigValue_v = VInt 7\<rparr> = (0, Some ''Value is not float'') \<and>
   ConfigValue_MustBool \<lparr>ConfigValue_v = VInt 7\<rparr> = (False, Some ''Value is not bool'') \<and>
   ConfigValue_MustInt \<lparr>ConfigValue_v = VNil\<rparr> = (0, Some ''Value is not set'') \<and>
   ConfigValue_MustString \<lparr>ConfigValue_v = VNil\<rparr> = ([], Some ''Value is not set'') \<and>
   ConfigValue_MustFloat \<lparr>ConfigValue_v = VNil\<rparr> = (0, Some ''Value is not set'') \<and>
   ConfigValue_MustBool \<lparr>ConfigValue_v = VNil\<rparr> = (False, Some ''Value is not set'') \<and>
   ConfigValue_MustString \<lparr>ConfigValue_v = VString ''db''\<rparr> = (''db'', None) \<and>
   ConfigValue_MustInt \<lparr>ConfigValue_v = VString ''db''\<rparr> = (0, Some ''Value is not int'') \<and>
   ConfigValue_MustFloat \<lparr>ConfigValue_v = VFloat 5\<rparr> = (5, None) \<and>
   ConfigValue_MustBool \<lparr>ConfigValue_v = VBool True\<rparr> = (True, None)"
  using must_accessors [of "\<lparr>ConfigValue_v = VInt 7\<rparr>" 7 "''db''" 5 True]
    must_accessors [of "\<lparr>ConfigValue_v = VNil\<rparr>" 7 "''db''" 5 True]
    must_accessors [of "\<lparr>ConfigValue_v = VString ''db''\<rparr>" 7 "''db''" 5 True]
    must_accessors [of "\<lparr>ConfigValue_v = VFloat 5\<rparr>" 7 "''db''" 5 True]
    must_accessors [of "\<lparr>ConfigValue_v = VBool True\<rparr>" 7 "''db''" 5 True]
  by (simp add: Errorf_def)

text \<open>
  C5. Each \<^verbatim>\<open>Def\<close> accessor returns the underlying value when it has the requested
  dynamic type and the given default in every other case, nil (never set) included.
\<close>

theorem default_accessors:
  "(ConfigValue_v cv = VInt n \<longrightarrow> ConfigValue_DefInt cv defInt = n) \<and>
   ((\<forall>k. ConfigValue_v cv \<noteq> VInt k) \<longrightarrow> ConfigValue_DefInt cv defInt = defInt) \<and>
   (ConfigValue_v cv = VString s \<longrightarrow> ConfigValue_DefString cv defString = s) \<and>
   ((\<forall>t. ConfigValue_v cv \<noteq> VString t) \<longrightarrow>
      ConfigValue_DefString cv defString = defString) \<and>
   (ConfigValue_v cv = VFloat f \<longrightarrow> ConfigValue_DefFloat cv defFloat = f) \<and>
   ((\<forall>g. ConfigValue_v cv \<noteq> VFloat g) \<longrightarrow> ConfigValue_DefFloat cv defFloat = defFloat) \<and>
   (ConfigValue_v cv = VBool b \<longrightarrow> ConfigValue_DefBool cv defBool = b) \<and>
   ((\<forall>d. ConfigValue_v cv \<noteq> VBool d) \<longrightarrow> ConfigValue_DefBool cv defBool = defBool)"
  unfolding ConfigValue_DefInt_def ConfigValue_DefString_def ConfigValue_DefFloat_def
    ConfigValue_DefBool_def
  by (cases "ConfigValue_v cv") auto

theorem default_accessors_witness:
  "ConfigValue_DefInt \<lparr>ConfigValue_v = VInt 7\<rparr> 3306 = 7 \<and>
   ConfigValue_DefInt \<lparr>ConfigValue_v = VNil\<rparr> 3306 = 3306 \<and>
   ConfigValue_DefString \<lparr>ConfigValue_v = VString ''db''\<rparr> ''localhost'' = ''db'' \<and>
   ConfigValue_DefString \<lparr>ConfigValue_v = VNil\<rparr> ''localhost'' = ''localhost'' \<and>
   ConfigValue_DefFloat \<lparr>ConfigValue_v = VFloat 5\<rparr> 9 = 5 \<and>
   ConfigValue_DefFloat \<lparr>ConfigValue_v = VInt 7\<rparr> 9 = 9 \<and>
   ConfigValue_DefBool \<lparr>ConfigValue_v = VBool False\<rparr> True = False \<and>
   ConfigValue_DefBool \<lparr>ConfigValue_v = VString ''db''\<rparr> True = True"
  using default_accessors [of "\<lparr>ConfigValue_v = VInt 7\<rparr>" 7 3306 "''db''" "''localhost''" 5 9 False True]
    default_accessors [of "\<lparr>ConfigValue_v = VNil\<rparr>" 7 3306 "''db''" "''localhost''" 5 9 False True]
    default_accessors [of "\<lparr>ConfigValue_v = VString ''db''\<rparr>" 7 3306 "''db''" "''localhost''" 5 9 False True]
    default_accessors [of "\<lparr>ConfigValue_v = VFloat 5\<rparr>" 7 3306 "''db''" "''localhost''" 5 9 False True]
    default_accessors [of "\<lparr>ConfigValue_v = VBool False\<rparr>" 7 3306 "''db''" "''localhost''" 5 9 False True]
  by simp

subsection \<open>Viewing a value as a string-keyed map\<close>

lemma toStrMap_VNil: "toStrMap VNil = None"
  by (simp add: toStrMap_def)

lemma toStrMap_VStrMap: "toStrMap (VStrMap mp) = mp"
  by (simp add: toStrMap_def)

lemma update_fresh: "k \<notin> fst ` set al \<Longrightarrow> AList.update k x al = al @ [(k, x)]"
  by (induction al) auto

lemma key_string_inj:
  "snd (assert_key_string k) \<Longrightarrow> snd (assert_key_string k') \<Longrightarrow>
   key_string k = key_string k' \<Longrightarrow> k = k'"
  by (cases k; cases k') (simp_all add: key_string_def)

lemma KString_key_string: "snd (assert_key_string k) \<Longrightarrow> KString (key_string k) = k"
  by (cases k) (simp_all add: key_string_def)

lemma toStrMap_range_string_keys:
  "string_keys entries \<Longrightarrow> distinct (map fst entries) \<Longrightarrow>
   \<forall>(k, x) \<in> set entries. key_string k \<notin> fst ` set strMap \<Longrightarrow>
   toStrMap_range entries strMap = Some (strMap @ unwrap_keys entries)"
proof (induction entries arbitrary: strMap)
  case Nil
  then show ?case by (simp add: unwrap_keys_def)
next
  case (Cons e entries)
  obtain k x where e: "e = (k, x)" by (cases e)
  from Cons.prems(1) e have is_string: "snd (assert_key_string k)"
    and rest_strings: "string_keys entries"
    by (simp_all add: string_keys_def)
  from is_string have assert: "assert_key_string k = (key_string k, True)"
    by (cases k) (simp_all add: key_string_def)
  from Cons.prems(3) e have fresh: "key_string k \<notin> fst ` set strMap" by simp
  have "key_string k' \<notin> fst ` set (strMap @ [(key_string k, x)])"
    if mem: "(k', x') \<in> set entries" for k' x'
  proof
    assume clash: "key_string k' \<in> fst ` set (strMap @ [(key_string k, x)])"
    from mem Cons.prems(3) have "key_string k' \<notin> fst ` set strMap" by auto
    with clash have same: "key_string k' = key_string k" by auto
    from mem rest_strings have "snd (assert_key_string k')"
      by (auto simp add: string_keys_def list_all_iff)
    with same is_string have "k' = k" by (auto intro: key_string_inj)
    with mem Cons.prems(2) e show False by (force simp add: image_iff)
  qed
  then have "\<forall>(k', x') \<in> set entries.
      key_string k' \<notin> fst ` set (strMap @ [(key_string k, x)])"
    by blast
  with Cons.IH [of "strMap @ [(key_string k, x)]"] rest_strings Cons.prems(2)
  have "toStrMap_range entries (strMap @ [(key_string k, x)]) =
      Some ((strMap @ [(key_string k, x)]) @ unwrap_keys entries)"
    by simp
  with e assert fresh show ?case
    by (simp add: update_fresh unwrap_keys_def)
qed

lemma toStrMap_range_other_key:
  "\<not> string_keys entries \<Longrightarrow> toStrMap_range entries strMap = None"
proof (induction entries arbitrary: strMap)
  case Nil
  then show ?case by (simp add: string_keys_def)
next
  case (Cons e entries)
  obtain k x where e: "e = (k, x)" by (cases e)
  show ?case
  proof (cases "snd (assert_key_string k)")
    case True
    with Cons.prems e have "\<not> string_keys entries" by (simp add: string_keys_def)
    then have "toStrMap_range entries (AList.update (fst (assert_key_string k)) x strMap) = None"
      by (rule Cons.IH)
    with True e show ?thesis by (cases "assert_key_string k") simp
  next
    case False
    with e show ?thesis by (cases "assert_key_string k") simp
  qed
qed

lemma toStrMap_VIMap_string_keys:
  "string_keys (range_entries im) \<Longrightarrow> distinct (map fst (range_entries im)) \<Longrightarrow>
   toStrMap (VIMap im) = Some (unwrap_keys (range_entries im))"
  using toStrMap_range_string_keys [of "range_entries im" "[]"]
  by (simp add: toStrMap_def)

lemma toStrMap_VIMap_other_key:
  "\<not> string_keys (range_entries im) \<Longrightarrow> toStrMap (VIMap im) = None"
  by (simp add: toStrMap_def toStrMap_range_other_key)

lemma string_keys_mem:
  "string_keys entries \<Longrightarrow> e \<in> set entries \<Longrightarrow> snd (assert_key_string (fst e))"
  by (auto simp add: string_keys_def list_all_iff)

lemma map_fst_unwrap_keys: "map fst (unwrap_keys entries) = map key_string (map fst entries)"
  by (simp add: unwrap_keys_def case_prod_beta)

lemma distinct_unwrap_keys:
  assumes "string_keys entries" and "distinct (map fst entries)"
  shows "distinct (map fst (unwrap_keys entries))"
proof -
  have "inj_on key_string (set (map fst entries))"
  proof (rule inj_onI)
    fix k k'
    assume "k \<in> set (map fst entries)" and "k' \<in> set (map fst entries)"
      and same: "key_string k = key_string k'"
    with assms(1) have "snd (assert_key_string k)" and "snd (assert_key_string k')"
      by (auto dest: string_keys_mem)
    with same show "k = k'" by (auto intro: key_string_inj)
  qed
  with assms(2) show ?thesis
    by (simp only: map_fst_unwrap_keys distinct_map)
qed

subsection \<open>Dotted-key lookup\<close>

lemma Split_from_not_Nil: "Split_from s sep chunk \<noteq> []"
  by (induction s arbitrary: chunk) auto

lemma Split_not_Nil: "Split s sep \<noteq> []"
  by (simp add: Split_def Split_from_not_Nil)

lemma fst_map_index:
  "fst (map_index mp k) = (case map_of (range_entries mp) k of None \<Rightarrow> VNil | Some x \<Rightarrow> x)"
  by (simp add: map_index_def range_entries_def split: option.splits)

lemma snd_map_index: "snd (map_index mp k) = (map_of (range_entries mp) k \<noteq> None)"
  by (simp add: map_index_def range_entries_def split: option.splits)






lemma dotted_Cons: "rest \<noteq> [] \<Longrightarrow> dotted (seg # rest) = seg @ SEP # dotted rest"
  by (cases rest) simp_all

lemma dotted_Cons_Cons: "dotted ((c # seg) # rest) = c # dotted (seg # rest)"
  by (cases rest) simp_all

lemma Split_from_chunk:
  "Split_from s sep chunk =
     (chunk @ hd (Split_from s sep [])) # tl (Split_from s sep [])"
proof (induction s arbitrary: chunk)
  case Nil
  show ?case by simp
next
  case (Cons c s)
  show ?case
  proof (cases "c = sep")
    case True
    then show ?thesis by simp
  next
    case False
    with Cons [of "chunk @ [c]"] Cons [of "[c]"] show ?thesis by simp
  qed
qed

lemma dotted_Split_from: "dotted (Split_from s SEP []) = s"
proof (induction s)
  case Nil
  show ?case by simp
next
  case (Cons c s)
  let ?rest = "Split_from s SEP []"
  have whole: "hd ?rest # tl ?rest = ?rest"
    by (simp add: Split_from_not_Nil)
  show ?case
  proof (cases "c = SEP")
    case True
    with Cons show ?thesis
      by (simp add: dotted_Cons Split_from_not_Nil)
  next
    case False
    then have "Split_from (c # s) SEP [] = (c # hd ?rest) # tl ?rest"
      using Split_from_chunk [of s SEP "[c]"] by simp
    with Cons whole show ?thesis
      by (simp add: dotted_Cons_Cons)
  qed
qed

lemma Split_from_segments:
  "sep \<notin> set chunk \<Longrightarrow> seg \<in> set (Split_from s sep chunk) \<Longrightarrow> sep \<notin> set seg"
proof (induction s arbitrary: chunk)
  case Nil
  then show ?case by simp
next
  case (Cons c s)
  show ?case
  proof (cases "c = sep")
    case True
    with Cons.prems Cons.IH [of "[]"] show ?thesis by auto
  next
    case False
    with Cons.prems Cons.IH [of "chunk @ [c]"] show ?thesis by auto
  qed
qed

lemma dotted_Split: "dotted (Split k SEP) = k"
  by (simp add: Split_def dotted_Split_from)

lemma Split_segments: "\<forall>seg \<in> set (Split k SEP). SEP \<notin> set seg"
  using Split_from_segments [of SEP "[]" _ k] by (auto simp add: Split_def)

lemma descend_Cons:
  "rest \<noteq> [] \<Longrightarrow>
   descend entries (seg # rest) =
     (case map_of entries seg of
        None \<Rightarrow> VNil
      | Some x \<Rightarrow> (case view_as_strmap x of None \<Rightarrow> VNil | Some sub \<Rightarrow> descend sub rest))"
  by (cases rest) (auto split: option.splits)

lemma descend_no_entries: "descend [] segs = VNil"
proof (cases segs)
  case Nil
  then show ?thesis by simp
next
  case (Cons seg rest)
  then show ?thesis by (cases rest) simp_all
qed

text \<open>
  What \<open>toStrMap\<close> returns is the view of the specification, but for the nil
  string-keyed map, which it returns as the nil it is.
\<close>

lemma toStrMap_view:
  assumes "keys_once x"
  shows "toStrMap x = (if x = VStrMap None then None else view_as_strmap x)"
proof (cases x)
  case (VStrMap mp)
  then show ?thesis
    by (cases mp) (simp_all add: toStrMap_VStrMap range_entries_def)
next
  case (VIMap im)
  with assms have once: "distinct (map fst (range_entries im))"
    by (cases im) (simp_all add: range_entries_def)
  show ?thesis
  proof (cases "string_keys (range_entries im)")
    case True
    with once VIMap show ?thesis by (simp add: toStrMap_VIMap_string_keys)
  next
    case False
    with VIMap show ?thesis by (simp add: toStrMap_VIMap_other_key)
  qed
qed (simp_all add: toStrMap_def)

lemma keys_once_view:
  assumes "keys_once x" and "view_as_strmap x = Some sub"
  shows "keys_once (VStrMap (Some sub))"
proof (cases x)
  case (VStrMap mp)
  with assms show ?thesis
    by (cases mp) (auto simp add: range_entries_def)
next
  case (VIMap im)
  with assms(2) have strings: "string_keys (range_entries im)"
    and sub: "sub = unwrap_keys (range_entries im)"
    by (simp_all split: if_splits)
  from assms(1) VIMap have once: "distinct (map fst (range_entries im))"
    and below: "\<forall>(k, y) \<in> set (range_entries im). keys_once y"
    by (cases im; simp add: range_entries_def)+
  from strings once have "distinct (map fst sub)"
    unfolding sub by (rule distinct_unwrap_keys)
  moreover from below have "\<forall>(k, y) \<in> set sub. keys_once y"
    by (auto simp add: sub unwrap_keys_def)
  ultimately show ?thesis by simp
qed (use assms(2) in simp_all)

lemma keys_once_lookup:
  assumes "keys_once (VStrMap mp)"
  shows "keys_once (fst (map_index mp k))"
proof (cases "map_of (range_entries mp) k")
  case None
  then show ?thesis by (simp add: fst_map_index)
next
  case (Some x)
  then have "(k, x) \<in> set (range_entries mp)" by (rule map_of_SomeD)
  with assms have "keys_once x"
    by (cases mp) (auto simp add: range_entries_def)
  with Some show ?thesis by (simp add: fst_map_index)
qed

lemma getValueWithCompositeKey_descend:
  "keys_once (VStrMap mp) \<Longrightarrow> 0 \<le> current \<Longrightarrow> current < int (length keyChunks) \<Longrightarrow>
   getValueWithCompositeKey mp keyChunks current =
     Inr (descend (range_entries mp) (drop (nat current) keyChunks))"
proof (induction mp keyChunks current rule: getValueWithCompositeKey.induct)
  case (1 mp keyChunks current)
  let ?seg = "keyChunks ! nat current"
  let ?data = "fst (map_index mp ?seg)"
  let ?rest = "drop (Suc (nat current)) keyChunks"
  from "1.prems" have in_range: "nat current < length keyChunks" by simp
  then have chunks: "drop (nat current) keyChunks = ?seg # ?rest"
    by (simp add: Cons_nth_drop_Suc)
  from "1.prems"(1) have data_once: "keys_once ?data" by (rule keys_once_lookup)
  show ?case
  proof (cases "current = int (length keyChunks) - 1")
    case True
    then have "?rest = []" by simp
    with chunks have "descend (range_entries mp) (drop (nat current) keyChunks) = ?data"
      by (simp add: fst_map_index)
    with True "1.prems" show ?thesis
      by (subst getValueWithCompositeKey.simps) simp
  next
    case False
    with "1.prems" have more: "?rest \<noteq> []" by simp
    have next_index: "nat (current + 1) = Suc (nat current)"
      using "1.prems" by simp
    have spec: "descend (range_entries mp) (drop (nat current) keyChunks) =
        (case view_as_strmap ?data of None \<Rightarrow> VNil | Some sub \<Rightarrow> descend sub ?rest)"
      using more
      by (cases "map_of (range_entries mp) ?seg") (simp_all add: chunks descend_Cons fst_map_index)
    show ?thesis
    proof (cases "toStrMap ?data")
      case None
      have "descend (range_entries mp) (drop (nat current) keyChunks) = VNil"
      proof (cases "?data = VStrMap None")
        case True
        then show ?thesis
          by (simp only: spec) (simp add: range_entries_def descend_no_entries)
      next
        case no_nil: False
        with None toStrMap_view [OF data_once] have "view_as_strmap ?data = None" by simp
        then show ?thesis by (simp only: spec) simp
      qed
      with None False "1.prems" show ?thesis
        by (subst getValueWithCompositeKey.simps) simp
    next
      case (Some sub)
      with toStrMap_view [OF data_once] have view: "view_as_strmap ?data = Some sub"
        by (simp split: if_splits)
      with data_once have "keys_once (VStrMap (Some sub))" by (rule keys_once_view)
      with "1.IH" [OF _ refl False Some] "1.prems" False
      have "getValueWithCompositeKey (Some sub) keyChunks (current + 1) =
          Inr (descend (range_entries (Some sub)) (drop (nat (current + 1)) keyChunks))"
        by simp
      then have "getValueWithCompositeKey (Some sub) keyChunks (current + 1) =
          Inr (descend (range_entries mp) (drop (nat current) keyChunks))"
        by (simp only: spec view next_index) (simp add: range_entries_def)
      with Some False "1.prems" show ?thesis
        by (subst getValueWithCompositeKey.simps) simp
    qed
  qed
qed

lemma getValueWithCompositeKey_start:
  "keys_once (VStrMap mp) \<Longrightarrow> keyChunks \<noteq> [] \<Longrightarrow>
   getValueWithCompositeKey mp keyChunks 0 = Inr (descend (range_entries mp) keyChunks)"
  using getValueWithCompositeKey_descend [of mp 0 keyChunks] by simp

lemma Config_Get_literal:
  "map_of (range_entries (Config_data c)) k = Some x \<Longrightarrow>
   Config_Get c k = Inr \<lparr>ConfigValue_v = x\<rparr>"
  by (auto simp add: Config_Get_def map_index_def range_entries_def split: option.splits)

lemma Config_Get_fallback:
  "map_of (range_entries (Config_data c)) k = None \<Longrightarrow>
   Config_Get c k =
     (case getValueWithCompositeKey (Config_data c) (Split k SEP) 0 of
        Inl p \<Rightarrow> Inl p
      | Inr x \<Rightarrow> Inr \<lparr>ConfigValue_v = x\<rparr>)"
  by (auto simp add: Config_Get_def map_index_def range_entries_def split: option.splits)

text \<open>
  C1. \<^verbatim>\<open>Get\<close> never panics. It returns the value stored under the literal key when
  the top-level map binds that key; otherwise it splits the key at the dots and returns
  what the descent of the specification finds: the value under the last segment, or nil
  when a segment is absent or the value of a segment before the last cannot be viewed
  as a string-keyed map. The descent and the view are those of the specification,
  stated without the functions of the source; the maps of the configuration bind each
  key once, as the maps of Go do. The segments are those of the key: there is at least
  one, none has a dot in it, and joined with dots they are the key.
\<close>

theorem Get_literal_key_then_descent:
  assumes "keys_once (VStrMap (Config_data c))"
  shows "Config_Get c k =
     Inr \<lparr>ConfigValue_v =
       (case map_of (range_entries (Config_data c)) k of
          Some x \<Rightarrow> x
        | None \<Rightarrow> descend (range_entries (Config_data c)) (Split k SEP))\<rparr> \<and>
     Split k SEP \<noteq> [] \<and>
     (\<forall>seg \<in> set (Split k SEP). SEP \<notin> set seg) \<and>
     dotted (Split k SEP) = k"
proof -
  have "Config_Get c k =
     Inr \<lparr>ConfigValue_v =
       (case map_of (range_entries (Config_data c)) k of
          Some x \<Rightarrow> x
        | None \<Rightarrow> descend (range_entries (Config_data c)) (Split k SEP))\<rparr>"
  proof (cases "map_of (range_entries (Config_data c)) k")
    case None
    with getValueWithCompositeKey_start [OF assms Split_not_Nil, of k SEP] show ?thesis
      by (simp add: Config_Get_fallback)
  next
    case (Some x)
    then show ?thesis by (simp add: Config_Get_literal)
  qed
  with Split_not_Nil [of k SEP] Split_segments [of k] dotted_Split [of k] show ?thesis
    by blast
qed

theorem Get_literal_key_then_descent_witness:
  "Config_Get three_levels ''a.b.c'' = Inr \<lparr>ConfigValue_v = VInt 1\<rparr> \<and>
   Config_Get three_levels ''a.b'' = Inr \<lparr>ConfigValue_v = VStrMap (Some [(''c'', VInt 1)])\<rparr> \<and>
   Config_Get three_levels ''a.x.c'' = Inr \<lparr>ConfigValue_v = VNil\<rparr> \<and>
   Config_Get readme_config ''db.account.login'' = Inr \<lparr>ConfigValue_v = VString ''db_user''\<rparr> \<and>
   Config_Get readme_config ''db.port'' = Inr \<lparr>ConfigValue_v = VNil\<rparr> \<and>
   Config_Get readme_config ''db.host.name'' = Inr \<lparr>ConfigValue_v = VNil\<rparr> \<and>
   Config_Get shadowed ''a.b'' = Inr \<lparr>ConfigValue_v = VNil\<rparr> \<and>
   Config_Get odd_sections ''n.b'' = Inr \<lparr>ConfigValue_v = VNil\<rparr> \<and>
   Config_Get odd_sections ''i.b'' = Inr \<lparr>ConfigValue_v = VNil\<rparr> \<and>
   Config_Get odd_sections ''l.b'' = Inr \<lparr>ConfigValue_v = VNil\<rparr>"
proof -
  have three: "keys_once (VStrMap (Config_data three_levels))"
    by (simp add: three_levels_def NewConfig_def)
  have readme: "keys_once (VStrMap (Config_data readme_config))"
    by (simp add: readme_config_def NewConfig_def)
  have shadow: "keys_once (VStrMap (Config_data shadowed))"
    by (simp add: shadowed_def NewConfig_def)
  have odd: "keys_once (VStrMap (Config_data odd_sections))"
    by (simp add: odd_sections_def NewConfig_def)
  note eval = NewConfig_def range_entries_def SEP_def Split_def string_keys_def unwrap_keys_def
    key_string_def
  from Get_literal_key_then_descent [OF three, of "''a.b.c''"]
    Get_literal_key_then_descent [OF three, of "''a.b''"]
    Get_literal_key_then_descent [OF three, of "''a.x.c''"]
  have 1: "Config_Get three_levels ''a.b.c'' = Inr \<lparr>ConfigValue_v = VInt 1\<rparr> \<and>
      Config_Get three_levels ''a.b'' = Inr \<lparr>ConfigValue_v = VStrMap (Some [(''c'', VInt 1)])\<rparr> \<and>
      Config_Get three_levels ''a.x.c'' = Inr \<lparr>ConfigValue_v = VNil\<rparr>"
    by (simp add: three_levels_def eval)
  from Get_literal_key_then_descent [OF readme, of "''db.account.login''"]
    Get_literal_key_then_descent [OF readme, of "''db.port''"]
    Get_literal_key_then_descent [OF readme, of "''db.host.name''"]
  have 2: "Config_Get readme_config ''db.account.login'' =
        Inr \<lparr>ConfigValue_v = VString ''db_user''\<rparr> \<and>
      Config_Get readme_config ''db.port'' = Inr \<lparr>ConfigValue_v = VNil\<rparr> \<and>
      Config_Get readme_config ''db.host.name'' = Inr \<lparr>ConfigValue_v = VNil\<rparr>"
    by (simp add: readme_config_def eval)
  from Get_literal_key_then_descent [OF shadow, of "''a.b''"]
  have 3: "Config_Get shadowed ''a.b'' = Inr \<lparr>ConfigValue_v = VNil\<rparr>"
    by (simp add: shadowed_def eval)
  from Get_literal_key_then_descent [OF odd, of "''n.b''"]
    Get_literal_key_then_descent [OF odd, of "''i.b''"]
    Get_literal_key_then_descent [OF odd, of "''l.b''"]
  have 4: "Config_Get odd_sections ''n.b'' = Inr \<lparr>ConfigValue_v = VNil\<rparr> \<and>
      Config_Get odd_sections ''i.b'' = Inr \<lparr>ConfigValue_v = VNil\<rparr> \<and>
      Config_Get odd_sections ''l.b'' = Inr \<lparr>ConfigValue_v = VNil\<rparr>"
    by (simp add: odd_sections_def eval)
  from 1 2 3 4 show ?thesis by simp
qed




subsection \<open>List iterator\<close>

lemma ListIterator_Next_funpow:
  "(ListIterator_Next ^^ n) \<lparr>ListIterator_a = xs, ListIterator_i = 0\<rparr> =
     \<lparr>ListIterator_a = xs, ListIterator_i = int (min n (length xs))\<rparr>"
proof (induction n)
  case 0
  then show ?case by simp
next
  case (Suc n)
  then show ?case
    by (auto simp add: ListIterator_Next_def ListIterator_Finished_def min_def)
qed

text \<open>
  C8. \<^verbatim>\<open>Next\<close> leaves a finished list iterator as it is, and keeps an index that is
  between \<open>0\<close> and the length of the slice between them; so does every number of calls
  of \<^verbatim>\<open>Next\<close> on the iterator that \<^verbatim>\<open>Iterate\<close> makes. \<^verbatim>\<open>Value\<close> on a finished
  iterator panics with an index out of range, and with the index in these bounds it
  returns the element at the index exactly when the iterator is not finished.
\<close>

theorem ListIterator_index_bounds:
  "(ListIterator_Finished it \<longrightarrow> ListIterator_Next it = it) \<and>
   (0 \<le> ListIterator_i it \<and> ListIterator_i it \<le> int (length (ListIterator_a it)) \<longrightarrow>
      0 \<le> ListIterator_i (ListIterator_Next it) \<and>
      ListIterator_i (ListIterator_Next it) \<le> int (length (ListIterator_a (ListIterator_Next it))) \<and>
      ListIterator_a (ListIterator_Next it) = ListIterator_a it) \<and>
   0 \<le> ListIterator_i ((ListIterator_Next ^^ n) \<lparr>ListIterator_a = xs, ListIterator_i = 0\<rparr>) \<and>
   ListIterator_i ((ListIterator_Next ^^ n) \<lparr>ListIterator_a = xs, ListIterator_i = 0\<rparr>)
     \<le> int (length xs) \<and>
   (ListIterator_Finished it \<longrightarrow> ListIterator_Value it = Inl IndexOutOfRange) \<and>
   (0 \<le> ListIterator_i it \<and> ListIterator_i it \<le> int (length (ListIterator_a it)) \<and>
    \<not> ListIterator_Finished it \<longrightarrow>
      ListIterator_Value it =
        Inr \<lparr>ConfigValue_v = ListIterator_a it ! nat (ListIterator_i it)\<rparr>)"
proof -
  have finished: "ListIterator_Finished it \<longrightarrow> ListIterator_Next it = it"
    by (simp add: ListIterator_Next_def)
  have step: "0 \<le> ListIterator_i it \<and> ListIterator_i it \<le> int (length (ListIterator_a it)) \<longrightarrow>
      0 \<le> ListIterator_i (ListIterator_Next it) \<and>
      ListIterator_i (ListIterator_Next it) \<le> int (length (ListIterator_a (ListIterator_Next it))) \<and>
      ListIterator_a (ListIterator_Next it) = ListIterator_a it"
    by (auto simp add: ListIterator_Next_def ListIterator_Finished_def)
  have reach: "0 \<le> ListIterator_i ((ListIterator_Next ^^ n) \<lparr>ListIterator_a = xs, ListIterator_i = 0\<rparr>) \<and>
      ListIterator_i ((ListIterator_Next ^^ n) \<lparr>ListIterator_a = xs, ListIterator_i = 0\<rparr>)
        \<le> int (length xs)"
    by (simp add: ListIterator_Next_funpow)
  have panics: "ListIterator_Finished it \<longrightarrow> ListIterator_Value it = Inl IndexOutOfRange"
    by (simp add: ListIterator_Value_def ListIterator_Finished_def)
  have safe: "0 \<le> ListIterator_i it \<and> ListIterator_i it \<le> int (length (ListIterator_a it)) \<and>
      \<not> ListIterator_Finished it \<longrightarrow>
        ListIterator_Value it =
          Inr \<lparr>ConfigValue_v = ListIterator_a it ! nat (ListIterator_i it)\<rparr>"
    by (auto simp add: ListIterator_Value_def ListIterator_Finished_def)
  from finished step reach panics safe show ?thesis by blast
qed

theorem ListIterator_index_bounds_witness:
  "ListIterator_Finished \<lparr>ListIterator_a = [VInt 1, VInt 2], ListIterator_i = 2\<rparr> \<and>
   ListIterator_Next \<lparr>ListIterator_a = [VInt 1, VInt 2], ListIterator_i = 2\<rparr> =
     \<lparr>ListIterator_a = [VInt 1, VInt 2], ListIterator_i = 2\<rparr> \<and>
   ListIterator_Value \<lparr>ListIterator_a = [VInt 1, VInt 2], ListIterator_i = 2\<rparr> =
     Inl IndexOutOfRange \<and>
   \<not> ListIterator_Finished \<lparr>ListIterator_a = [VInt 1, VInt 2], ListIterator_i = 1\<rparr> \<and>
   ListIterator_Value \<lparr>ListIterator_a = [VInt 1, VInt 2], ListIterator_i = 1\<rparr> =
     Inr \<lparr>ConfigValue_v = VInt 2\<rparr> \<and>
   ListIterator_i (ListIterator_Next \<lparr>ListIterator_a = [VInt 1, VInt 2], ListIterator_i = 1\<rparr>)
     \<le> 2"
  using ListIterator_index_bounds
      [of "\<lparr>ListIterator_a = [VInt 1, VInt 2], ListIterator_i = 2\<rparr>" 3 "[VInt 1, VInt 2]"]
    ListIterator_index_bounds
      [of "\<lparr>ListIterator_a = [VInt 1, VInt 2], ListIterator_i = 1\<rparr>" 3 "[VInt 1, VInt 2]"]
  by (auto simp add: ListIterator_Finished_def)

subsection \<open>Iterate\<close>

lemma mapGetKeys_range_append:
  "mapGetKeys_range entries acc = acc @ map (\<lambda>e. VString (fst e)) entries"
  by (induction entries acc rule: mapGetKeys_range.induct) simp_all

lemma mapGetKeys_keys: "mapGetKeys mp = map (\<lambda>e. VString (fst e)) (range_entries mp)"
  by (simp add: mapGetKeys_def mapGetKeys_range_append)

text \<open>
  C6, as stated: \<^verbatim>\<open>Iterate\<close> gives a map iterator whenever the value is a string-keyed
  map. The nil map of type \<^verbatim>\<open>map[string]interface{}\<close> is a string-keyed map (and
  \<^verbatim>\<open>IsMap\<close> says so), but \<^verbatim>\<open>toStrMap\<close> returns it as it is, \<^verbatim>\<open>Iterate\<close>
  takes the nil for a failure, and the iterator is the empty one.
\<close>

theorem Iterate_nil_map_counterexample:
  "ConfigValue_IsMap \<lparr>ConfigValue_v = VStrMap None\<rparr> \<and>
   ConfigValue_Iterate \<lparr>ConfigValue_v = VStrMap None\<rparr> = EmptyIt"
  by (simp add: ConfigValue_IsMap_def ConfigValue_Iterate_def toStrMap_def)

text \<open>
  C6, amended. \<^verbatim>\<open>Iterate\<close> returns one of three iterators: a list iterator at index
  \<open>0\<close> over the elements when the value is a slice; a map iterator at index \<open>0\<close> over
  the keys and with the entries of the map when the value is a string-keyed map that is
  not nil, or an interface-keyed map (nil or not) whose keys are all strings; and the
  empty iterator in every other case: a nil string-keyed map, an interface-keyed map
  with a key that is not a string, and a value that is neither slice nor map. The empty
  iterator is finished at once, \<^verbatim>\<open>Next\<close> does nothing, \<^verbatim>\<open>Value\<close> is the nil value,
  \<^verbatim>\<open>Key\<close> the empty string and \<^verbatim>\<open>Index\<close> is \<open>0\<close>.
\<close>

theorem Iterate_variants:
  "(ConfigValue_v cv = VSlice xs \<longrightarrow>
      ConfigValue_Iterate cv = ListIt \<lparr>ListIterator_a = xs, ListIterator_i = 0\<rparr>) \<and>
   (ConfigValue_v cv = VStrMap (Some entries) \<longrightarrow>
      ConfigValue_Iterate cv =
        MapIt \<lparr>MapIterator_ListIterator =
                 \<lparr>ListIterator_a = map (\<lambda>e. VString (fst e)) entries, ListIterator_i = 0\<rparr>,
               MapIterator_m = Some entries\<rparr>) \<and>
   (ConfigValue_v cv = VIMap im \<and> string_keys (range_entries im) \<and>
    distinct (map fst (range_entries im)) \<longrightarrow>
      ConfigValue_Iterate cv =
        MapIt \<lparr>MapIterator_ListIterator =
                 \<lparr>ListIterator_a = map (\<lambda>e. VString (fst e)) (unwrap_keys (range_entries im)),
                  ListIterator_i = 0\<rparr>,
               MapIterator_m = Some (unwrap_keys (range_entries im))\<rparr>) \<and>
   (ConfigValue_v cv = VStrMap None \<longrightarrow> ConfigValue_Iterate cv = EmptyIt) \<and>
   (ConfigValue_v cv = VIMap im \<and> \<not> string_keys (range_entries im) \<longrightarrow>
      ConfigValue_Iterate cv = EmptyIt) \<and>
   (\<not> ConfigValue_IsSlice cv \<and> \<not> ConfigValue_IsMap cv \<longrightarrow>
      ConfigValue_Iterate cv = EmptyIt) \<and>
   Iterator_Finished EmptyIt \<and>
   Iterator_Next EmptyIt = EmptyIt \<and>
   Iterator_Value EmptyIt = Inr \<lparr>ConfigValue_v = VNil\<rparr> \<and>
   Iterator_Key EmptyIt = Inr [] \<and>
   Iterator_Index EmptyIt = 0"
proof -
  have slice: "ConfigValue_v cv = VSlice xs \<longrightarrow>
      ConfigValue_Iterate cv = ListIt \<lparr>ListIterator_a = xs, ListIterator_i = 0\<rparr>"
    by (simp add: ConfigValue_Iterate_def)
  have strmap: "ConfigValue_v cv = VStrMap (Some entries) \<longrightarrow>
      ConfigValue_Iterate cv =
        MapIt \<lparr>MapIterator_ListIterator =
                 \<lparr>ListIterator_a = map (\<lambda>e. VString (fst e)) entries, ListIterator_i = 0\<rparr>,
               MapIterator_m = Some entries\<rparr>"
    by (simp add: ConfigValue_Iterate_def toStrMap_VStrMap mapGetKeys_keys range_entries_def)
  have imap: "ConfigValue_v cv = VIMap im \<and> string_keys (range_entries im) \<and>
      distinct (map fst (range_entries im)) \<longrightarrow>
      ConfigValue_Iterate cv =
        MapIt \<lparr>MapIterator_ListIterator =
                 \<lparr>ListIterator_a = map (\<lambda>e. VString (fst e)) (unwrap_keys (range_entries im)),
                  ListIterator_i = 0\<rparr>,
               MapIterator_m = Some (unwrap_keys (range_entries im))\<rparr>"
    by (simp add: ConfigValue_Iterate_def toStrMap_VIMap_string_keys mapGetKeys_keys
        range_entries_def)
  have nil_map: "ConfigValue_v cv = VStrMap None \<longrightarrow> ConfigValue_Iterate cv = EmptyIt"
    by (simp add: ConfigValue_Iterate_def toStrMap_VStrMap)
  have other_key: "ConfigValue_v cv = VIMap im \<and> \<not> string_keys (range_entries im) \<longrightarrow>
      ConfigValue_Iterate cv = EmptyIt"
    by (simp add: ConfigValue_Iterate_def toStrMap_VIMap_other_key)
  have neither: "\<not> ConfigValue_IsSlice cv \<and> \<not> ConfigValue_IsMap cv \<longrightarrow>
      ConfigValue_Iterate cv = EmptyIt"
    by (cases "ConfigValue_v cv")
      (simp_all add: ConfigValue_Iterate_def ConfigValue_IsSlice_def ConfigValue_IsMap_def
        toStrMap_def)
  have empty: "Iterator_Finished EmptyIt \<and> Iterator_Next EmptyIt = EmptyIt \<and>
      Iterator_Value EmptyIt = Inr \<lparr>ConfigValue_v = VNil\<rparr> \<and>
      Iterator_Key EmptyIt = Inr [] \<and> Iterator_Index EmptyIt = 0"
    by (simp add: EmptyIterator_Finished_def EmptyIterator_Value_def EmptyIterator_Key_def
        EmptyIterator_Index_def)
  from slice strmap imap nil_map other_key neither empty show ?thesis by blast
qed
theorem Iterate_variants_witness:
  "ConfigValue_Iterate \<lparr>ConfigValue_v = VSlice [VString ''posts'', VString ''likes'']\<rparr> =
     ListIt \<lparr>ListIterator_a = [VString ''posts'', VString ''likes''], ListIterator_i = 0\<rparr> \<and>
   ConfigValue_Iterate \<lparr>ConfigValue_v = VStrMap (Some [(''host'', VString ''h''), (''port'', VInt 3306)])\<rparr> =
     MapIt \<lparr>MapIterator_ListIterator =
              \<lparr>ListIterator_a = [VString ''host'', VString ''port''], ListIterator_i = 0\<rparr>,
            MapIterator_m = Some [(''host'', VString ''h''), (''port'', VInt 3306)]\<rparr> \<and>
   ConfigValue_Iterate \<lparr>ConfigValue_v = VIMap (Some [(KString ''host'', VString ''h''), (KString ''port'', VInt 3306)])\<rparr> =
     MapIt \<lparr>MapIterator_ListIterator =
              \<lparr>ListIterator_a = [VString ''host'', VString ''port''], ListIterator_i = 0\<rparr>,
            MapIterator_m = Some [(''host'', VString ''h''), (''port'', VInt 3306)]\<rparr> \<and>
   ConfigValue_Iterate \<lparr>ConfigValue_v = VIMap None\<rparr> =
     MapIt \<lparr>MapIterator_ListIterator = \<lparr>ListIterator_a = [], ListIterator_i = 0\<rparr>,
            MapIterator_m = Some []\<rparr> \<and>
   ConfigValue_Iterate \<lparr>ConfigValue_v = VStrMap None\<rparr> = EmptyIt \<and>
   ConfigValue_Iterate \<lparr>ConfigValue_v = VIMap (Some [(KString ''host'', VString ''h''), (KInt 1, VInt 3306)])\<rparr> =
     EmptyIt \<and>
   ConfigValue_Iterate \<lparr>ConfigValue_v = VInt 3306\<rparr> = EmptyIt \<and>
   ConfigValue_Iterate \<lparr>ConfigValue_v = VNil\<rparr> = EmptyIt"
  using
    Iterate_variants [of "\<lparr>ConfigValue_v = VSlice [VString ''posts'', VString ''likes'']\<rparr>"
      "[VString ''posts'', VString ''likes'']" "[]" None]
    Iterate_variants [of "\<lparr>ConfigValue_v = VStrMap (Some [(''host'', VString ''h''), (''port'', VInt 3306)])\<rparr>"
      "[]" "[(''host'', VString ''h''), (''port'', VInt 3306)]" None]
    Iterate_variants [of "\<lparr>ConfigValue_v = VIMap (Some [(KString ''host'', VString ''h''), (KString ''port'', VInt 3306)])\<rparr>"
      "[]" "[]" "Some [(KString ''host'', VString ''h''), (KString ''port'', VInt 3306)]"]
    Iterate_variants [of "\<lparr>ConfigValue_v = VIMap None\<rparr>" "[]" "[]" None]
    Iterate_variants [of "\<lparr>ConfigValue_v = VStrMap None\<rparr>" "[]" "[]" None]
    Iterate_variants [of "\<lparr>ConfigValue_v = VIMap (Some [(KString ''host'', VString ''h''), (KInt 1, VInt 3306)])\<rparr>"
      "[]" "[]" "Some [(KString ''host'', VString ''h''), (KInt 1, VInt 3306)]"]
    Iterate_variants [of "\<lparr>ConfigValue_v = VInt 3306\<rparr>" "[]" "[]" None]
    Iterate_variants [of "\<lparr>ConfigValue_v = VNil\<rparr>" "[]" "[]" None]
  by (simp add: range_entries_def string_keys_def unwrap_keys_def key_string_def
      ConfigValue_IsSlice_def ConfigValue_IsMap_def EmptyIterator_Value_def
      EmptyIterator_Finished_def EmptyIterator_Key_def EmptyIterator_Index_def)

subsection \<open>A full run of the map iterator\<close>

lemma iterate_loop_MapIt:
  "n \<le> length entries \<Longrightarrow>
   iterate_loop
     (MapIt \<lparr>MapIterator_ListIterator =
               \<lparr>ListIterator_a = map (\<lambda>e. VString (fst e)) entries, ListIterator_i = int n\<rparr>,
             MapIterator_m = Some entries\<rparr>)
     visited =
   Some (Inr (visited @
     map (\<lambda>e. (fst e, \<lparr>ConfigValue_v = fst (map_index (Some entries) (fst e))\<rparr>))
       (drop n entries)))"
proof (induction "length entries - n" arbitrary: n visited)
  case 0
  then have "n = length entries" by simp
  then show ?case
    by (subst iterate_loop.simps) (simp add: ListIterator_Finished_def)
next
  case (Suc d)
  then have below: "n < length entries" by simp
  let ?it = "MapIt \<lparr>MapIterator_ListIterator =
               \<lparr>ListIterator_a = map (\<lambda>e. VString (fst e)) entries, ListIterator_i = int n\<rparr>,
             MapIterator_m = Some entries\<rparr>"
  let ?k = "fst (entries ! n)"
  let ?x = "\<lparr>ConfigValue_v = fst (map_index (Some entries) ?k)\<rparr>"
  from below have not_finished: "\<not> Iterator_Finished ?it"
    by (simp add: ListIterator_Finished_def)
  from below have key: "Iterator_Key ?it = Inr ?k"
    by (simp add: MapIterator_Key_def ListIterator_Value_def ConfigValue_String_def)
  from key have val: "Iterator_Value ?it = Inr ?x"
    by (simp add: MapIterator_Value_def)
  from below have next_it: "Iterator_Next ?it =
      MapIt \<lparr>MapIterator_ListIterator =
               \<lparr>ListIterator_a = map (\<lambda>e. VString (fst e)) entries,
                ListIterator_i = int (Suc n)\<rparr>,
             MapIterator_m = Some entries\<rparr>"
    by (simp add: ListIterator_Next_def ListIterator_Finished_def)
  from Suc.hyps(2) below have "d = length entries - Suc n" by simp
  from Suc.hyps(1) [OF this, of "visited @ [(?k, ?x)]"] below
  have "iterate_loop
      (MapIt \<lparr>MapIterator_ListIterator =
               \<lparr>ListIterator_a = map (\<lambda>e. VString (fst e)) entries,
                ListIterator_i = int (Suc n)\<rparr>,
             MapIterator_m = Some entries\<rparr>)
      (visited @ [(?k, ?x)]) =
      Some (Inr ((visited @ [(?k, ?x)]) @
        map (\<lambda>e. (fst e, \<lparr>ConfigValue_v = fst (map_index (Some entries) (fst e))\<rparr>))
          (drop (Suc n) entries)))"
    by simp
  then have rest: "iterate_loop (Iterator_Next ?it) (visited @ [(?k, ?x)]) =
      Some (Inr ((visited @ [(?k, ?x)]) @
        map (\<lambda>e. (fst e, \<lparr>ConfigValue_v = fst (map_index (Some entries) (fst e))\<rparr>))
          (drop (Suc n) entries)))"
    by (simp only: next_it)
  from below have "drop n entries = entries ! n # drop (Suc n) entries"
    by (simp add: Cons_nth_drop_Suc)
  then have "visited @
      map (\<lambda>e. (fst e, \<lparr>ConfigValue_v = fst (map_index (Some entries) (fst e))\<rparr>))
        (drop n entries) =
      (visited @ [(?k, ?x)]) @
      map (\<lambda>e. (fst e, \<lparr>ConfigValue_v = fst (map_index (Some entries) (fst e))\<rparr>))
        (drop (Suc n) entries)"
    by simp
  with rest not_finished key val show ?case
    by (subst iterate_loop.simps) (simp only: if_False sum.case)
qed

lemma map_index_entry:
  "distinct (map fst entries) \<Longrightarrow> e \<in> set entries \<Longrightarrow>
   fst (map_index (Some entries) (fst e)) = snd e"
  by (cases e) (simp add: map_index_def)

lemma iterate_loop_map:
  assumes "distinct (map fst entries)"
  shows "iterate_loop
     (MapIt \<lparr>MapIterator_ListIterator =
               \<lparr>ListIterator_a = map (\<lambda>e. VString (fst e)) entries, ListIterator_i = 0\<rparr>,
             MapIterator_m = Some entries\<rparr>) [] =
   Some (Inr (map (\<lambda>e. (fst e, \<lparr>ConfigValue_v = snd e\<rparr>)) entries))"
proof -
  have "map (\<lambda>e. (fst e, \<lparr>ConfigValue_v = fst (map_index (Some entries) (fst e))\<rparr>)) entries =
      map (\<lambda>e. (fst e, \<lparr>ConfigValue_v = snd e\<rparr>)) entries"
    using assms by (simp add: map_index_entry)
  with iterate_loop_MapIt [of 0 entries "[]"] show ?thesis by simp
qed

lemma iterate_loop_EmptyIt: "iterate_loop EmptyIt [] = Some (Inr [])"
  by (subst iterate_loop.simps) (simp add: EmptyIterator_Finished_def)
lemma run_of_entries:
  assumes "distinct (map fst entries)"
  shows "\<exists>visited.
      iterate_loop
        (MapIt \<lparr>MapIterator_ListIterator =
                  \<lparr>ListIterator_a = map (\<lambda>e. VString (fst e)) entries, ListIterator_i = 0\<rparr>,
                MapIterator_m = Some entries\<rparr>) [] = Some (Inr visited) \<and>
      map fst visited = map fst entries \<and>
      (\<forall>(k, x) \<in> set visited. map_of entries k = Some (ConfigValue_v x))"
proof -
  let ?visited = "map (\<lambda>e. (fst e, \<lparr>ConfigValue_v = snd e\<rparr>)) entries"
  have "map fst ?visited = map fst entries" by simp
  moreover have "\<forall>(k, x) \<in> set ?visited. map_of entries k = Some (ConfigValue_v x)"
    using assms by auto
  ultimately show ?thesis
    using iterate_loop_map [OF assms] by blast
qed

text \<open>
  C10. For a value that is a string-keyed map, or an interface-keyed map whose keys are
  all strings, the loop from \<^verbatim>\<open>Iterate()\<close> until \<^verbatim>\<open>Finished()\<close> ends without a
  panic, visits every key of the map exactly once, and at each step \<^verbatim>\<open>Value()\<close> is
  the value that the map binds to \<^verbatim>\<open>Key()\<close>. The entries stand in the list in any
  order, so this holds for every order in which \<^verbatim>\<open>range\<close> may yield them.
\<close>

theorem map_iterator_full_run:
  "(ConfigValue_v cv = VStrMap mp \<and> distinct (map fst (range_entries mp)) \<longrightarrow>
      (\<exists>visited.
         iterate_loop (ConfigValue_Iterate cv) [] = Some (Inr visited) \<and>
         distinct (map fst visited) \<and>
         set (map fst visited) = fst ` set (range_entries mp) \<and>
         (\<forall>(k, x) \<in> set visited. map_of (range_entries mp) k = Some (ConfigValue_v x)))) \<and>
   (ConfigValue_v cv = VIMap im \<and> string_keys (range_entries im) \<and>
    distinct (map fst (range_entries im)) \<longrightarrow>
      (\<exists>visited.
         iterate_loop (ConfigValue_Iterate cv) [] = Some (Inr visited) \<and>
         distinct (map fst visited) \<and>
         KString ` set (map fst visited) = fst ` set (range_entries im) \<and>
         (\<forall>(k, x) \<in> set visited.
            map_of (range_entries im) (KString k) = Some (ConfigValue_v x))))"
proof (intro conjI impI; elim conjE)
  assume is_map: "ConfigValue_v cv = VStrMap mp"
    and once: "distinct (map fst (range_entries mp))"
  show "\<exists>visited.
      iterate_loop (ConfigValue_Iterate cv) [] = Some (Inr visited) \<and>
      distinct (map fst visited) \<and>
      set (map fst visited) = fst ` set (range_entries mp) \<and>
      (\<forall>(k, x) \<in> set visited. map_of (range_entries mp) k = Some (ConfigValue_v x))"
  proof (cases mp)
    case None
    with is_map have "ConfigValue_Iterate cv = EmptyIt"
      by (simp add: ConfigValue_Iterate_def toStrMap_VStrMap)
    with None show ?thesis
      by (simp add: iterate_loop_EmptyIt range_entries_def)
  next
    case (Some entries)
    with is_map have it: "ConfigValue_Iterate cv =
        MapIt \<lparr>MapIterator_ListIterator =
                 \<lparr>ListIterator_a = map (\<lambda>e. VString (fst e)) entries, ListIterator_i = 0\<rparr>,
               MapIterator_m = Some entries\<rparr>"
      by (simp add: ConfigValue_Iterate_def toStrMap_VStrMap mapGetKeys_keys range_entries_def)
    from Some once have distinct: "distinct (map fst entries)"
      by (simp add: range_entries_def)
    from run_of_entries [OF distinct] obtain visited where
      run: "iterate_loop (ConfigValue_Iterate cv) [] = Some (Inr visited)"
      and keys: "map fst visited = map fst entries"
      and vals: "\<forall>(k, x) \<in> set visited. map_of entries k = Some (ConfigValue_v x)"
      unfolding it by blast
    from keys distinct have "distinct (map fst visited)" by simp
    moreover from keys have "set (map fst visited) = fst ` set entries" by simp
    ultimately show ?thesis
      using run vals Some by (auto simp add: range_entries_def)
  qed
next
  assume is_map: "ConfigValue_v cv = VIMap im"
    and strings: "string_keys (range_entries im)"
    and once: "distinct (map fst (range_entries im))"
  let ?entries = "unwrap_keys (range_entries im)"
  from is_map strings once have it: "ConfigValue_Iterate cv =
      MapIt \<lparr>MapIterator_ListIterator =
               \<lparr>ListIterator_a = map (\<lambda>e. VString (fst e)) ?entries, ListIterator_i = 0\<rparr>,
             MapIterator_m = Some ?entries\<rparr>"
    by (simp add: ConfigValue_Iterate_def toStrMap_VIMap_string_keys mapGetKeys_keys
        range_entries_def)
  from strings once have distinct: "distinct (map fst ?entries)"
    by (rule distinct_unwrap_keys)
  from run_of_entries [OF distinct] obtain visited where
    run: "iterate_loop (ConfigValue_Iterate cv) [] = Some (Inr visited)"
    and keys: "map fst visited = map fst ?entries"
    and vals: "\<forall>(k, x) \<in> set visited. map_of ?entries k = Some (ConfigValue_v x)"
    unfolding it by blast
  from keys distinct have once': "distinct (map fst visited)" by simp
  have "KString ` set (map fst visited) = fst ` set (range_entries im)"
  proof -
    have "KString ` set (map fst visited) = (\<lambda>k. KString (key_string k)) ` fst ` set (range_entries im)"
      by (simp add: keys map_fst_unwrap_keys image_image)
    also have "\<dots> = (\<lambda>k. k) ` fst ` set (range_entries im)"
      using strings by (intro image_cong refl) (auto dest: string_keys_mem simp add: KString_key_string)
    finally show ?thesis by simp
  qed
  moreover have "\<forall>(k, x) \<in> set visited.
      map_of (range_entries im) (KString k) = Some (ConfigValue_v x)"
  proof (clarify)
    fix k x
    assume "(k, x) \<in> set visited"
    with vals have "map_of ?entries k = Some (ConfigValue_v x)" by auto
    then have "(k, ConfigValue_v x) \<in> set ?entries" by (rule map_of_SomeD)
    then obtain e where e: "e \<in> set (range_entries im)"
      and k: "k = key_string (fst e)" and x: "ConfigValue_v x = snd e"
      by (auto simp add: unwrap_keys_def)
    from strings e have "KString k = fst e"
      by (simp add: k KString_key_string string_keys_mem)
    moreover from e have "(fst e, snd e) \<in> set (range_entries im)" by simp
    ultimately show "map_of (range_entries im) (KString k) = Some (ConfigValue_v x)"
      using once x by (simp add: map_of_is_SomeI)
  qed
  ultimately show "\<exists>visited.
      iterate_loop (ConfigValue_Iterate cv) [] = Some (Inr visited) \<and>
      distinct (map fst visited) \<and>
      KString ` set (map fst visited) = fst ` set (range_entries im) \<and>
      (\<forall>(k, x) \<in> set visited.
         map_of (range_entries im) (KString k) = Some (ConfigValue_v x))"
    using run once' by blast
qed
theorem map_iterator_full_run_witness:
  "iterate_loop
     (ConfigValue_Iterate
        \<lparr>ConfigValue_v = VStrMap (Some [(''host'', VString ''h''), (''port'', VInt 3306)])\<rparr>) [] =
     Some (Inr [(''host'', \<lparr>ConfigValue_v = VString ''h''\<rparr>),
                (''port'', \<lparr>ConfigValue_v = VInt 3306\<rparr>)]) \<and>
   (\<exists>visited.
      iterate_loop
        (ConfigValue_Iterate
           \<lparr>ConfigValue_v = VStrMap (Some [(''host'', VString ''h''), (''port'', VInt 3306)])\<rparr>) [] =
        Some (Inr visited) \<and>
      distinct (map fst visited) \<and> set (map fst visited) = {''host'', ''port''}) \<and>
   (\<exists>visited.
      iterate_loop
        (ConfigValue_Iterate
           \<lparr>ConfigValue_v =
              VIMap (Some [(KString ''login'', VString ''db_user''),
                           (KString ''password'', VString ''xxxxxxx'')])\<rparr>) [] =
        Some (Inr visited) \<and>
      distinct (map fst visited) \<and>
      KString ` set (map fst visited) = {KString ''login'', KString ''password''})"
proof -
  let ?sm = "[(''host'', VString ''h''), (''port'', VInt 3306)]"
  let ?im = "[(KString ''login'', VString ''db_user''), (KString ''password'', VString ''xxxxxxx'')]"
  have "distinct (map fst ?sm)" by simp
  then have run: "iterate_loop (ConfigValue_Iterate \<lparr>ConfigValue_v = VStrMap (Some ?sm)\<rparr>) [] =
      Some (Inr [(''host'', \<lparr>ConfigValue_v = VString ''h''\<rparr>),
                 (''port'', \<lparr>ConfigValue_v = VInt 3306\<rparr>)])"
    using iterate_loop_map [of ?sm]
    by (simp add: ConfigValue_Iterate_def toStrMap_VStrMap mapGetKeys_keys range_entries_def)
  have "string_keys ?im" and "distinct (map fst ?im)"
    by (simp_all add: string_keys_def)
  with map_iterator_full_run
    [of "\<lparr>ConfigValue_v = VStrMap (Some ?sm)\<rparr>" "Some ?sm" None]
    map_iterator_full_run
    [of "\<lparr>ConfigValue_v = VIMap (Some ?im)\<rparr>" None "Some ?im"]
    run
  show ?thesis
    by (simp add: range_entries_def) blast
qed

subsection \<open>A key bound to nil\<close>

lemma descend_unresolved: "\<not> resolves entries segs \<Longrightarrow> descend entries segs = VNil"
  by (induction entries segs rule: descend.induct) (auto split: option.splits)

text \<open>
  C9, as stated: a caller cannot tell a key bound to nil from an absent key through
  the public interface. In \<open>sectioned\<close> the section \<^verbatim>\<open>sec\<close> binds \<^verbatim>\<open>a.b\<close> to nil
  and has no key \<^verbatim>\<open>x.y\<close>; \<^verbatim>\<open>Get\<close> on the section gives nil for both, but
  \<^verbatim>\<open>Iterate\<close> on the section visits the key \<^verbatim>\<open>a.b\<close> and no key \<^verbatim>\<open>x.y\<close>, and
  \<^verbatim>\<open>Raw\<close> returns the map itself.
\<close>

theorem nil_bound_told_apart_counterexample:
  "Config_Get sectioned ''sec'' = Inr \<lparr>ConfigValue_v = VStrMap (Config_data shadowed)\<rparr> \<and>
   ConfigValue_Config \<lparr>ConfigValue_v = VStrMap (Config_data shadowed)\<rparr> = shadowed \<and>
   map_of (range_entries (Config_data shadowed)) ''a.b'' = Some VNil \<and>
   absent shadowed ''x.y'' \<and>
   Config_Get shadowed ''a.b'' = Inr \<lparr>ConfigValue_v = VNil\<rparr> \<and>
   Config_Get shadowed ''x.y'' = Inr \<lparr>ConfigValue_v = VNil\<rparr> \<and>
   iterate_loop (ConfigValue_Iterate \<lparr>ConfigValue_v = VStrMap (Config_data shadowed)\<rparr>) [] =
     Some (Inr [(''a.b'', \<lparr>ConfigValue_v = VNil\<rparr>),
                (''a'', \<lparr>ConfigValue_v = VStrMap (Some [(''b'', VInt 1)])\<rparr>)]) \<and>
   ConfigValue_Raw \<lparr>ConfigValue_v = VStrMap (Config_data shadowed)\<rparr> =
     VStrMap (Some [(''a.b'', VNil), (''a'', VStrMap (Some [(''b'', VInt 1)]))])"
proof -
  let ?entries = "[(''a.b'', VNil), (''a'', VStrMap (Some [(''b'', VInt 1)]))]"
  have data: "Config_data shadowed = Some ?entries"
    by (simp add: shadowed_def NewConfig_def)
  have sec: "Config_Get sectioned ''sec'' = Inr \<lparr>ConfigValue_v = VStrMap (Config_data shadowed)\<rparr>"
    by (simp add: data Config_Get_def sectioned_def NewConfig_def map_index_def)
  have conf: "ConfigValue_Config \<lparr>ConfigValue_v = VStrMap (Config_data shadowed)\<rparr> = shadowed"
    by (simp add: ConfigValue_Config_def toStrMap_VStrMap shadowed_def NewConfig_def)
  have bound: "map_of (range_entries (Config_data shadowed)) ''a.b'' = Some VNil"
    by (simp add: data range_entries_def)
  have gone: "absent shadowed ''x.y''"
    by (simp add: absent_def data range_entries_def Split_def SEP_def)
  have once: "keys_once (VStrMap (Config_data shadowed))"
    by (simp add: data)
  from bound have get_bound: "Config_Get shadowed ''a.b'' = Inr \<lparr>ConfigValue_v = VNil\<rparr>"
    by (rule Config_Get_literal)
  from gone have "descend (range_entries (Config_data shadowed)) (Split ''x.y'' SEP) = VNil"
    by (simp add: absent_def descend_unresolved)
  with getValueWithCompositeKey_start [OF once Split_not_Nil, of "''x.y''" SEP] gone
  have get_gone: "Config_Get shadowed ''x.y'' = Inr \<lparr>ConfigValue_v = VNil\<rparr>"
    by (simp add: absent_def Config_Get_fallback)
  have "iterate_loop (ConfigValue_Iterate \<lparr>ConfigValue_v = VStrMap (Some ?entries)\<rparr>) [] =
      Some (Inr (map (\<lambda>e. (fst e, \<lparr>ConfigValue_v = snd e\<rparr>)) ?entries))"
    using iterate_loop_map [of ?entries]
    by (simp add: ConfigValue_Iterate_def toStrMap_VStrMap mapGetKeys_keys range_entries_def)
  then have run: "iterate_loop
      (ConfigValue_Iterate \<lparr>ConfigValue_v = VStrMap (Config_data shadowed)\<rparr>) [] =
      Some (Inr [(''a.b'', \<lparr>ConfigValue_v = VNil\<rparr>),
                 (''a'', \<lparr>ConfigValue_v = VStrMap (Some [(''b'', VInt 1)])\<rparr>)])"
    by (simp add: data)
  have raw: "ConfigValue_Raw \<lparr>ConfigValue_v = VStrMap (Config_data shadowed)\<rparr> =
      VStrMap (Some ?entries)"
    by (simp add: ConfigValue_Raw_def data)
  from sec conf bound gone get_bound get_gone run raw show ?thesis
    by (intro conjI)
qed

text \<open>
  C9, amended. When the top-level map binds the literal key to nil, \<^verbatim>\<open>Get\<close> returns
  that nil and does not descend, whatever the descent would find. For an absent key,
  one that the top-level map does not bind and whose path does not resolve, \<^verbatim>\<open>Get\<close>
  returns the same value, and \<^verbatim>\<open>IsSet\<close> is false of it: \<^verbatim>\<open>Get\<close> and the methods
  of the value it returns do not tell the two apart.
\<close>

theorem Get_nil_bound_like_absent:
  assumes "map_of (range_entries (Config_data c)) k = Some VNil"
    and "absent c' k'"
    and "keys_once (VStrMap (Config_data c'))"
  shows "Config_Get c k = Inr \<lparr>ConfigValue_v = VNil\<rparr> \<and>
         Config_Get c' k' = Config_Get c k \<and>
         \<not> ConfigValue_IsSet \<lparr>ConfigValue_v = VNil\<rparr>"
proof -
  from assms(1) have bound: "Config_Get c k = Inr \<lparr>ConfigValue_v = VNil\<rparr>"
    by (rule Config_Get_literal)
  from assms(2) have unbound: "map_of (range_entries (Config_data c')) k' = None"
    and "descend (range_entries (Config_data c')) (Split k' SEP) = VNil"
    by (simp_all add: absent_def descend_unresolved)
  with getValueWithCompositeKey_start [OF assms(3) Split_not_Nil, of k' SEP]
  have "Config_Get c' k' = Inr \<lparr>ConfigValue_v = VNil\<rparr>"
    by (simp add: Config_Get_fallback)
  with bound show ?thesis
    by (simp add: ConfigValue_IsSet_def)
qed

theorem Get_nil_bound_like_absent_witness:
  "map_of (range_entries (Config_data shadowed)) ''a.b'' = Some VNil \<and>
   descend (range_entries (Config_data shadowed)) (Split ''a.b'' SEP) = VInt 1 \<and>
   absent readme_config ''db.port'' \<and>
   absent shadowed ''x.y'' \<and>
   Config_Get shadowed ''a.b'' = Inr \<lparr>ConfigValue_v = VNil\<rparr> \<and>
   Config_Get readme_config ''db.port'' = Inr \<lparr>ConfigValue_v = VNil\<rparr> \<and>
   Config_Get shadowed ''x.y'' = Inr \<lparr>ConfigValue_v = VNil\<rparr> \<and>
   \<not> ConfigValue_IsSet \<lparr>ConfigValue_v = VNil\<rparr>"
proof -
  note eval = NewConfig_def range_entries_def Split_def SEP_def string_keys_def
    unwrap_keys_def key_string_def
  have bound: "map_of (range_entries (Config_data shadowed)) ''a.b'' = Some VNil"
    by (simp add: shadowed_def eval)
  have fallback: "descend (range_entries (Config_data shadowed)) (Split ''a.b'' SEP) = VInt 1"
    by (simp add: shadowed_def eval)
  have gone: "absent readme_config ''db.port''"
    by (simp add: absent_def readme_config_def eval)
  have gone': "absent shadowed ''x.y''"
    by (simp add: absent_def shadowed_def eval)
  have once: "keys_once (VStrMap (Config_data readme_config))"
    by (simp add: readme_config_def NewConfig_def)
  have once': "keys_once (VStrMap (Config_data shadowed))"
    by (simp add: shadowed_def NewConfig_def)
  from Get_nil_bound_like_absent [OF bound gone once]
    Get_nil_bound_like_absent [OF bound gone' once'] bound fallback gone gone'
  show ?thesis by simp
qed

section \<open>No write to configuration data\<close>

lemma data_unchanged_iff:
  "data_unchanged h h' \<longleftrightarrow>
     length h \<le> length h' \<and> (\<forall>p < length h. is_data (h ! p) \<longrightarrow> h' ! p = h ! p)"
  by (auto simp add: data_unchanged_def list_all_iff)

lemma data_unchanged_refl: "data_unchanged h h"
  by (simp add: data_unchanged_iff)

lemma data_unchanged_trans:
  "data_unchanged h h' \<Longrightarrow> data_unchanged h' h'' \<Longrightarrow> data_unchanged h h''"
  unfolding data_unchanged_iff
  by (metis less_le_trans order_trans)

lemma data_unchanged_alloc:
  "data_unchanged h0 h \<Longrightarrow> data_unchanged h0 (snd (alloc h ob))"
  by (auto simp add: data_unchanged_iff alloc_def nth_append)

lemma fst_alloc: "fst (alloc h ob) = length h"
  by (simp add: alloc_def)

lemma length_alloc: "length (snd (alloc h ob)) = Suc (length h)"
  by (simp add: alloc_def)

text \<open>An assignment to an object that is not in the store \<open>h0\<close> leaves the data of \<open>h0\<close>.\<close>

lemma data_unchanged_update_new:
  "data_unchanged h0 h \<Longrightarrow> length h0 \<le> p \<Longrightarrow> data_unchanged h0 (h[p := ob])"
  by (auto simp add: data_unchanged_iff)

text \<open>An assignment to an iterator leaves the data.\<close>

lemma data_unchanged_update_iterator:
  assumes "data_unchanged h0 h" and "object_at h p = Some (OListIterator a i)"
  shows "data_unchanged h0 (h[p := ob])"
proof -
  have "h[p := ob] ! q = h0 ! q" if "q < length h0" and "is_data (h0 ! q)" for q
  proof -
    from assms(1) that have same: "h ! q = h0 ! q"
      by (simp add: data_unchanged_iff)
    from assms(2) have "h ! p = OListIterator a i"
      by (simp add: object_at_def split: if_splits)
    with same that(2) have "q \<noteq> p" by (metis is_data.simps(1))
    with same show ?thesis by simp
  qed
  with assms(1) show ?thesis
    by (simp add: data_unchanged_iff)
qed

lemma data_unchanged_map_assign:
  "data_unchanged h0 h \<Longrightarrow> length h0 \<le> p \<Longrightarrow> data_unchanged h0 (map_assign h p k x)"
  by (simp add: map_assign_def data_unchanged_update_new split: option.splits obj.splits)

lemma data_unchanged_toStrMap_range_st:
  "data_unchanged h0 h \<Longrightarrow> length h0 \<le> strMap \<Longrightarrow>
   data_unchanged h0 (snd (toStrMap_range_st entries strMap h))"
proof (induction entries strMap h rule: toStrMap_range_st.induct)
  case (1 strMap h)
  then show ?case by simp
next
  case (2 k x rest strMap h)
  show ?case
  proof (cases "assert_key_string k")
    case (Pair asStr ok)
    show ?thesis
    proof (cases ok)
      case True
      with Pair "2.IH" "2.prems" show ?thesis
        by (auto simp add: data_unchanged_map_assign)
    next
      case False
      with Pair "2.prems" show ?thesis by simp
    qed
  qed
qed

lemma data_unchanged_toStrMap_st:
  "data_unchanged h (snd (toStrMap_st h val))"
proof (cases val)
  case (RIMap asIMap)
  have "data_unchanged h (snd (alloc h (OStrMap [])))"
    by (rule data_unchanged_alloc) (rule data_unchanged_refl)
  then have "data_unchanged h
      (snd (toStrMap_range_st (imap_entries (snd (alloc h (OStrMap []))) asIMap)
        (fst (alloc h (OStrMap []))) (snd (alloc h (OStrMap [])))))"
    by (rule data_unchanged_toStrMap_range_st) (simp add: fst_alloc)
  with RIMap show ?thesis
    by (simp add: toStrMap_st_def make_strmap_def split_beta)
qed (simp_all add: toStrMap_st_def data_unchanged_refl)

lemma data_unchanged_getValueWithCompositeKey_st:
  "data_unchanged h (snd (getValueWithCompositeKey_st h mp keyChunks current))"
proof (induction h mp keyChunks current rule: getValueWithCompositeKey_st.induct)
  case (1 h mp keyChunks current)
  let ?data = "fst (map_index_st h mp (keyChunks ! nat current))"
  show ?case
  proof (cases "current < 0 \<or> int (length keyChunks) \<le> current")
    case True
    then show ?thesis
      by (subst getValueWithCompositeKey_st.simps) (simp add: data_unchanged_refl)
  next
    case in_range: False
    show ?thesis
    proof (cases "current = int (length keyChunks) - 1")
      case True
      with in_range show ?thesis
        by (subst getValueWithCompositeKey_st.simps) (simp add: data_unchanged_refl)
    next
      case False
      obtain res h' where conv: "toStrMap_st h ?data = (res, h')"
        by (cases "toStrMap_st h ?data")
      have first: "data_unchanged h h'"
        using data_unchanged_toStrMap_st [of h ?data] conv by simp
      show ?thesis
      proof (cases res)
        case None
        with in_range False conv first show ?thesis
          by (subst getValueWithCompositeKey_st.simps) simp
      next
        case (Some data')
        from "1.IH" [OF in_range refl False conv [symmetric] Some]
        have "data_unchanged h'
            (snd (getValueWithCompositeKey_st h' (Some data') keyChunks (current + 1)))" .
        with first have "data_unchanged h
            (snd (getValueWithCompositeKey_st h' (Some data') keyChunks (current + 1)))"
          by (rule data_unchanged_trans)
        with in_range False conv Some show ?thesis
          by (subst getValueWithCompositeKey_st.simps) simp
      qed
    qed
  qed
qed

lemma data_unchanged_Config_Get_st: "data_unchanged h (snd (Config_Get_st h c k))"
proof (cases "snd (map_index_st h (Config_st_data c) k)")
  case True
  then show ?thesis
    by (cases "map_index_st h (Config_st_data c) k")
      (simp add: Config_Get_st_def data_unchanged_refl)
next
  case False
  let ?r = "getValueWithCompositeKey_st h (Config_st_data c) (Split k SEP) 0"
  have "data_unchanged h (snd ?r)"
    by (rule data_unchanged_getValueWithCompositeKey_st)
  with False show ?thesis
    by (cases "map_index_st h (Config_st_data c) k"; cases ?r; cases "fst ?r")
      (simp_all add: Config_Get_st_def)
qed

lemma data_unchanged_ConfigValue_Config_st:
  "data_unchanged h (snd (ConfigValue_Config_st h cv))"
  using data_unchanged_toStrMap_st [of h "ConfigValue_st_v cv"]
  by (simp add: ConfigValue_Config_st_def split_beta)
lemma length_data_unchanged: "data_unchanged h0 h \<Longrightarrow> length h0 \<le> length h"
  by (simp add: data_unchanged_iff)

lemma append_st_new:
  assumes "data_unchanged h0 h" and "length h0 \<le> slice_array a"
  shows "data_unchanged h0 (snd (append_st h a x))"
    and "length h0 \<le> slice_array (fst (append_st h a x))"
proof -
  let ?elems = "array_elems h (slice_array a)"
  let ?top = "slice_off a + slice_len a"
  show "data_unchanged h0 (snd (append_st h a x))"
  proof (cases "?top < length ?elems")
    case True
    with assms show ?thesis
      by (simp add: append_st_def Let_def data_unchanged_update_new)
  next
    case False
    with assms(1) show ?thesis
      by (simp add: append_st_def Let_def split_beta data_unchanged_alloc)
  qed
  show "length h0 \<le> slice_array (fst (append_st h a x))"
  proof (cases "?top < length ?elems")
    case True
    with assms(2) show ?thesis
      by (simp add: append_st_def Let_def)
  next
    case False
    with length_data_unchanged [OF assms(1)] show ?thesis
      by (simp add: append_st_def Let_def split_beta fst_alloc)
  qed
qed

lemma data_unchanged_mapGetKeys_range_st:
  "data_unchanged h0 h \<Longrightarrow> length h0 \<le> slice_array a \<Longrightarrow>
   data_unchanged h0 (snd (mapGetKeys_range_st entries a h))"
proof (induction entries arbitrary: a h)
  case Nil
  then show ?case by simp
next
  case (Cons e entries)
  obtain k x where e: "e = (k, x)" by (cases e)
  let ?r = "append_st h a (RString k)"
  from Cons.prems have "data_unchanged h0 (snd ?r)" and "length h0 \<le> slice_array (fst ?r)"
    by (rule append_st_new)+
  then have "data_unchanged h0 (snd (mapGetKeys_range_st entries (fst ?r) (snd ?r)))"
    by (rule Cons.IH)
  with e show ?case by (simp add: split_beta)
qed

lemma data_unchanged_mapGetKeys_st: "data_unchanged h (snd (mapGetKeys_st h mp))"
proof -
  let ?n = "length (strmap_entries h mp)"
  let ?al = "alloc h (OArray (replicate ?n RNil))"
  have "data_unchanged h (snd ?al)"
    by (rule data_unchanged_alloc) (rule data_unchanged_refl)
  then have "data_unchanged h
      (snd (mapGetKeys_range_st (strmap_entries (snd ?al) mp)
        \<lparr>slice_array = fst ?al, slice_off = 0, slice_len = 0\<rparr> (snd ?al)))"
    by (rule data_unchanged_mapGetKeys_range_st) (simp add: fst_alloc)
  then show ?thesis
    by (simp add: mapGetKeys_st_def make_slice_def split_beta)
qed

lemma data_unchanged_ConfigValue_Iterate_st:
  "data_unchanged h (snd (ConfigValue_Iterate_st h cv))"
proof (cases "snd (rassert_slice (ConfigValue_st_v cv))")
  case True
  then show ?thesis
    by (cases "rassert_slice (ConfigValue_st_v cv)")
      (simp add: ConfigValue_Iterate_st_def split_beta data_unchanged_alloc data_unchanged_refl)
next
  case False
  obtain res h1 where conv: "toStrMap_st h (ConfigValue_st_v cv) = (res, h1)"
    by (cases "toStrMap_st h (ConfigValue_st_v cv)")
  have first: "data_unchanged h h1"
    using data_unchanged_toStrMap_st [of h "ConfigValue_st_v cv"] conv by simp
  show ?thesis
  proof (cases res)
    case None
    with False conv first show ?thesis
      by (cases "rassert_slice (ConfigValue_st_v cv)") (simp add: ConfigValue_Iterate_st_def)
  next
    case (Some mp)
    let ?keys = "mapGetKeys_st h1 (Some mp)"
    have "data_unchanged h1 (snd ?keys)"
      by (rule data_unchanged_mapGetKeys_st)
    with first have "data_unchanged h (snd ?keys)"
      by (rule data_unchanged_trans)
    then have "data_unchanged h (snd (alloc (snd ?keys) (OListIterator (fst ?keys) 0)))"
      by (rule data_unchanged_alloc)
    with False conv Some show ?thesis
      by (cases "rassert_slice (ConfigValue_st_v cv)")
        (simp add: ConfigValue_Iterate_st_def split_beta)
  qed
qed

lemma data_unchanged_ListIterator_Next_st: "data_unchanged h (ListIterator_Next_st h p)"
proof (cases "object_at h p")
  case None
  then show ?thesis by (simp add: ListIterator_Next_st_def data_unchanged_refl)
next
  case (Some ob)
  show ?thesis
  proof (cases ob)
    case (OListIterator a i)
    with Some have "data_unchanged h (h[p := OListIterator a (i + 1)])"
      by (intro data_unchanged_update_iterator [of h h p a i] data_unchanged_refl) simp
    with Some OListIterator show ?thesis
      by (simp add: ListIterator_Next_st_def data_unchanged_refl)
  qed (use Some in \<open>simp_all add: ListIterator_Next_st_def data_unchanged_refl\<close>)
qed

lemma data_unchanged_Iterator_Next_st: "data_unchanged h (Iterator_Next_st h it)"
  by (cases it) (simp_all add: data_unchanged_ListIterator_Next_st data_unchanged_refl)

lemma client_store_add_results [simp]: "client_store (add_results s rs) = client_store s"
  by (simp add: add_results_def)

lemma client_store_on_value [simp]: "client_store (on_value s n f) = client_store s"
  by (simp add: on_value_def)

lemma client_store_on_iterator [simp]: "client_store (on_iterator s n f) = client_store s"
  by (simp add: on_iterator_def)

lemma data_unchanged_step: "data_unchanged (client_store s) (client_store (step c s))"
proof (cases c)
  case (Call_Get n k)
  let ?r = "Config_Get_st (client_store s) (client_configs s ! n) k"
  have "data_unchanged (client_store s) (snd ?r)"
    by (rule data_unchanged_Config_Get_st)
  with Call_Get show ?thesis
    by (cases ?r; cases "fst ?r") (simp_all add: data_unchanged_refl)
next
  case (Call_Config n)
  let ?r = "ConfigValue_Config_st (client_store s) (client_values s ! n)"
  have "data_unchanged (client_store s) (snd ?r)"
    by (rule data_unchanged_ConfigValue_Config_st)
  with Call_Config show ?thesis
    by (cases ?r) (simp add: data_unchanged_refl)
next
  case (Call_Iterate n)
  let ?r = "ConfigValue_Iterate_st (client_store s) (client_values s ! n)"
  have "data_unchanged (client_store s) (snd ?r)"
    by (rule data_unchanged_ConfigValue_Iterate_st)
  with Call_Iterate show ?thesis
    by (cases ?r) (simp add: data_unchanged_refl)
next
  case (Call_Next n)
  then show ?thesis
    by (simp add: data_unchanged_Iterator_Next_st data_unchanged_refl)
next
  case (Call_Value n)
  then show ?thesis
    by (cases "Iterator_Value_st (client_store s) (client_iterators s ! n)")
      (simp_all add: data_unchanged_refl)
qed (simp_all add: data_unchanged_refl)

text \<open>
  C7. No call of the package writes to configuration data: after any sequence of calls
  of \<^verbatim>\<open>Get\<close>, of the accessors, of \<^verbatim>\<open>Config\<close>, of \<^verbatim>\<open>Iterate\<close> and of the methods
  of the iterators, made on any objects the client holds, every map and every array
  that was in the store before is in it at the same address with the same entries and
  elements; so are the data map of every \<^verbatim>\<open>Config\<close> and all that it refers to. What
  the calls write are the maps, arrays and iterators they have made themselves.
\<close>

theorem calls_leave_data_unchanged:
  "data_unchanged (client_store s) (client_store (run calls s))"
proof (induction calls arbitrary: s)
  case Nil
  show ?case by (simp add: data_unchanged_refl)
next
  case (Cons c calls)
  have "data_unchanged (client_store s) (client_store (step c s))"
    by (rule data_unchanged_step)
  moreover have "data_unchanged (client_store (step c s)) (client_store (run calls (step c s)))"
    by (rule Cons.IH)
  ultimately show ?case
    by (simp add: data_unchanged_trans)
qed
lemma small_descent:
  "getValueWithCompositeKey_st small_store (Some 0) [''a'', ''b''] 0 =
     (Inr (RInt 1), small_store @ [OStrMap [(''b'', RInt 1)]])"
proof -
  have view: "toStrMap_st small_store (RIMap (Some 1)) =
      (Some 3, small_store @ [OStrMap [(''b'', RInt 1)]])"
    by (simp add: toStrMap_st_def make_strmap_def alloc_def imap_entries_def object_at_def
        map_assign_def small_store_def)
  have first: "fst (map_index_st small_store (Some 0) ''a'') = RIMap (Some 1)"
    by (simp add: map_index_st_def strmap_entries_def object_at_def small_store_def)
  have second: "getValueWithCompositeKey_st (small_store @ [OStrMap [(''b'', RInt 1)]])
      (Some 3) [''a'', ''b''] 1 = (Inr (RInt 1), small_store @ [OStrMap [(''b'', RInt 1)]])"
    by (subst getValueWithCompositeKey_st.simps)
      (simp add: map_index_st_def strmap_entries_def object_at_def small_store_def)
  from first view second show ?thesis
    by (subst getValueWithCompositeKey_st.simps) simp
qed

theorem calls_leave_data_unchanged_witness:
  "client_store
     (run [Call_Get 0 ''a.b'', Call_Int 0, Call_Get 0 ''l'', Call_Iterate 1, Call_Next 0,
           Call_Get 0 ''a'', Call_Iterate 2, Call_Next 1] small_client) =
     small_store @
     [OStrMap [(''b'', RInt 1)],
      OListIterator \<lparr>slice_array = 2, slice_off = 0, slice_len = 2\<rparr> 1,
      OStrMap [(''b'', RInt 1)],
      OArray [RString ''b''],
      OListIterator \<lparr>slice_array = 6, slice_off = 0, slice_len = 1\<rparr> 1] \<and>
   client_results
     (run [Call_Get 0 ''a.b'', Call_Int 0, Call_Get 0 ''l'', Call_Iterate 1, Call_Next 0,
           Call_Get 0 ''a'', Call_Iterate 2, Call_Next 1] small_client) = [ResInt 1] \<and>
   data_unchanged small_store
     (client_store
        (run [Call_Get 0 ''a.b'', Call_Int 0, Call_Get 0 ''l'', Call_Iterate 1, Call_Next 0,
              Call_Get 0 ''a'', Call_Iterate 2, Call_Next 1] small_client))"
proof -
  let ?l = "RSlice \<lparr>slice_array = 2, slice_off = 0, slice_len = 2\<rparr>"
  let ?top = "OStrMap [(''a'', RIMap (Some 1)), (''l'', ?l)]"
  let ?sec = "OIMap [(KString ''b'', RInt 1)]"
  let ?arr = "OArray [RInt 7, RInt 8]"
  let ?view = "OStrMap [(''b'', RInt 1)]"
  let ?c = "\<lparr>Config_st_data = Some 0\<rparr>"
  let ?v0 = "\<lparr>ConfigValue_st_v = RInt 1\<rparr>"
  let ?v1 = "\<lparr>ConfigValue_st_v = ?l\<rparr>"
  let ?v2 = "\<lparr>ConfigValue_st_v = RIMap (Some 1)\<rparr>"
  let ?it0 = "OListIterator \<lparr>slice_array = 2, slice_off = 0, slice_len = 2\<rparr>"
  let ?it1 = "OListIterator \<lparr>slice_array = 6, slice_off = 0, slice_len = 1\<rparr>"
  let ?s1 = "\<lparr>client_store = [?top, ?sec, ?arr, ?view], client_configs = [?c],
    client_values = [?v0], client_iterators = [], client_results = []\<rparr>"
  let ?s2 = "\<lparr>client_store = [?top, ?sec, ?arr, ?view], client_configs = [?c],
    client_values = [?v0], client_iterators = [], client_results = [ResInt 1]\<rparr>"
  let ?s3 = "\<lparr>client_store = [?top, ?sec, ?arr, ?view], client_configs = [?c],
    client_values = [?v0, ?v1], client_iterators = [], client_results = [ResInt 1]\<rparr>"
  let ?s4 = "\<lparr>client_store = [?top, ?sec, ?arr, ?view, ?it0 0], client_configs = [?c],
    client_values = [?v0, ?v1], client_iterators = [ListIt_st 4],
    client_results = [ResInt 1]\<rparr>"
  let ?s5 = "\<lparr>client_store = [?top, ?sec, ?arr, ?view, ?it0 1], client_configs = [?c],
    client_values = [?v0, ?v1], client_iterators = [ListIt_st 4],
    client_results = [ResInt 1]\<rparr>"
  let ?s6 = "\<lparr>client_store = [?top, ?sec, ?arr, ?view, ?it0 1], client_configs = [?c],
    client_values = [?v0, ?v1, ?v2], client_iterators = [ListIt_st 4],
    client_results = [ResInt 1]\<rparr>"
  let ?s7 = "\<lparr>client_store = [?top, ?sec, ?arr, ?view, ?it0 1, ?view, OArray [RString ''b''], ?it1 0],
    client_configs = [?c], client_values = [?v0, ?v1, ?v2],
    client_iterators = [ListIt_st 4, MapIt_st 7 (Some 5)], client_results = [ResInt 1]\<rparr>"
  let ?s8 = "\<lparr>client_store = [?top, ?sec, ?arr, ?view, ?it0 1, ?view, OArray [RString ''b''], ?it1 1],
    client_configs = [?c], client_values = [?v0, ?v1, ?v2],
    client_iterators = [ListIt_st 4, MapIt_st 7 (Some 5)], client_results = [ResInt 1]\<rparr>"
  have 1: "step (Call_Get 0 ''a.b'') small_client = ?s1"
    using small_descent
    by (simp add: small_client_def NewConfig_st_def Config_Get_st_def map_index_st_def
        strmap_entries_def object_at_def Split_def SEP_def small_store_def)
  have 2: "step (Call_Int 0) ?s1 = ?s2"
    by (simp add: on_value_def add_results_def ConfigValue_Int_st_def)
  have 3: "step (Call_Get 0 ''l'') ?s2 = ?s3"
    by (simp add: Config_Get_st_def map_index_st_def strmap_entries_def object_at_def)
  have 4: "step (Call_Iterate 1) ?s3 = ?s4"
    by (simp add: ConfigValue_Iterate_st_def alloc_def)
  have 5: "step (Call_Next 0) ?s4 = ?s5"
    by (simp add: ListIterator_Next_st_def ListIterator_Finished_st_def ListIterator_st_a_def
        ListIterator_st_i_def object_at_def)
  have 6: "step (Call_Get 0 ''a'') ?s5 = ?s6"
    by (simp add: Config_Get_st_def map_index_st_def strmap_entries_def object_at_def)
  have 7: "step (Call_Iterate 2) ?s6 = ?s7"
    by (simp add: ConfigValue_Iterate_st_def toStrMap_st_def make_strmap_def alloc_def
        imap_entries_def object_at_def map_assign_def mapGetKeys_st_def make_slice_def
        strmap_entries_def append_st_def array_elems_def)
  have 8: "step (Call_Next 1) ?s7 = ?s8"
    by (simp add: ListIterator_Next_st_def ListIterator_Finished_st_def ListIterator_st_a_def
        ListIterator_st_i_def object_at_def)
  have run_eq: "run [Call_Get 0 ''a.b'', Call_Int 0, Call_Get 0 ''l'', Call_Iterate 1,
      Call_Next 0, Call_Get 0 ''a'', Call_Iterate 2, Call_Next 1] small_client = ?s8"
    by (simp only: run.simps 1 2 3 4 5 6 7 8)
  from calls_leave_data_unchanged [of small_client
      "[Call_Get 0 ''a.b'', Call_Int 0, Call_Get 0 ''l'', Call_Iterate 1, Call_Next 0,
        Call_Get 0 ''a'', Call_Iterate 2, Call_Next 1]"]
  have "data_unchanged (client_store small_client) (client_store ?s8)"
    by (simp only: run_eq)
  then have unchanged: "data_unchanged small_store (client_store ?s8)"
    by (simp add: small_client_def)
  have new: "client_store ?s8 =
      small_store @ [?view, ?it0 1, ?view, OArray [RString ''b''], ?it1 1]"
    by (simp add: small_store_def)
  from unchanged new show ?thesis
    by (simp only: run_eq) simp
qed

section \<open>The store model computes what the tree model computes\<close>

text \<open>
  The functions over the store and the functions over trees are the same program: called
  on a reference and on the tree it stands for, each pair returns the same scalar, the
  same panic, or references and iterators that stand for the trees and iterators the
  other returns. A store that only grows by what the calls make keeps what a reference
  stands for.
\<close>

lemma object_at_unchanged:
  "data_unchanged h h' \<Longrightarrow> object_at h p = Some ob \<Longrightarrow> is_data ob \<Longrightarrow>
   object_at h' p = Some ob"
  by (auto simp add: data_unchanged_iff object_at_def split: if_splits)

lemma slice_elems_unchanged:
  assumes "data_unchanged h h'"
    and "slice_off a + slice_len a \<le> length (array_elems h (slice_array a))"
  shows "slice_off a + slice_len a \<le> length (array_elems h' (slice_array a)) \<and>
    take (slice_len a) (drop (slice_off a) (array_elems h' (slice_array a))) =
    take (slice_len a) (drop (slice_off a) (array_elems h (slice_array a)))"
proof (cases "\<exists>elems. object_at h (slice_array a) = Some (OArray elems)")
  case True
  then obtain elems where "object_at h (slice_array a) = Some (OArray elems)" by blast
  with assms(1) have "object_at h' (slice_array a) = Some (OArray elems)"
    by (auto intro: object_at_unchanged)
  with \<open>object_at h (slice_array a) = Some (OArray elems)\<close> assms(2) show ?thesis
    by (simp add: array_elems_def)
next
  case False
  then have "array_elems h (slice_array a) = []"
    by (auto simp add: array_elems_def split: option.splits obj.splits)
  with assms(2) show ?thesis by simp
qed

lemma repr_unchanged: "repr h r x \<Longrightarrow> data_unchanged h h' \<Longrightarrow> repr h' r x"
proof (induction rule: repr.induct)
  case (repr_Slice a xs)
  from slice_elems_unchanged [OF repr_Slice.prems repr_Slice.hyps(1)]
  have room: "slice_off a + slice_len a \<le> length (array_elems h' (slice_array a))"
    and same: "take (slice_len a) (drop (slice_off a) (array_elems h' (slice_array a))) =
      take (slice_len a) (drop (slice_off a) (array_elems h (slice_array a)))"
    by simp_all
  from repr_Slice.IH repr_Slice.prems
  have "list_all2 (repr h')
      (take (slice_len a) (drop (slice_off a) (array_elems h (slice_array a)))) xs"
    by (auto elim!: list_all2_mono)
  with room same show ?case by (auto intro: repr.repr_Slice)
next
  case (repr_StrMap p rentries entries)
  from repr_StrMap.prems repr_StrMap.hyps(1)
  have "object_at h' p = Some (OStrMap rentries)"
    by (auto intro: object_at_unchanged)
  moreover from repr_StrMap.IH repr_StrMap.prems
  have "list_all2 (\<lambda>re e. fst re = fst e \<and> repr h' (snd re) (snd e)) rentries entries"
    by (auto elim!: list_all2_mono)
  ultimately show ?case by (rule repr.repr_StrMap)
next
  case (repr_IMap p rentries entries)
  from repr_IMap.prems repr_IMap.hyps(1)
  have "object_at h' p = Some (OIMap rentries)"
    by (auto intro: object_at_unchanged)
  moreover from repr_IMap.IH repr_IMap.prems
  have "list_all2 (\<lambda>re e. fst re = fst e \<and> repr h' (snd re) (snd e)) rentries entries"
    by (auto elim!: list_all2_mono)
  ultimately show ?case by (rule repr.repr_IMap)
qed (auto intro: repr.intros)
inductive_cases repr_StrMapE: "repr h (RStrMap mp) x"
inductive_cases repr_to_StrMapE: "repr h r (VStrMap m)"

lemma repr_strmap_None [simp]: "repr_strmap h None m \<longleftrightarrow> m = None"
  by (auto simp add: repr_strmap_def intro: repr.intros elim: repr_StrMapE)

lemma repr_strmap_to_None [simp]: "repr_strmap h mp None \<longleftrightarrow> mp = None"
  by (auto simp add: repr_strmap_def intro: repr.intros elim: repr_StrMapE)

lemma repr_strmap_Some:
  "repr_strmap h (Some p) (Some entries) \<longleftrightarrow>
     (\<exists>rentries. object_at h p = Some (OStrMap rentries) \<and>
        list_all2 (\<lambda>re e. fst re = fst e \<and> repr h (snd re) (snd e)) rentries entries)"
  by (auto simp add: repr_strmap_def intro: repr.intros elim: repr_StrMapE)

lemma map_of_repr:
  "list_all2 (\<lambda>re e. fst re = fst e \<and> repr h (snd re) (snd e)) rentries entries \<Longrightarrow>
   (map_of rentries k = None \<and> map_of entries k = None) \<or>
   (\<exists>r x. map_of rentries k = Some r \<and> map_of entries k = Some x \<and> repr h r x)"
  by (induction rule: list_all2_induct) auto

lemma update_repr:
  "list_all2 (\<lambda>re e. fst re = fst e \<and> repr h (snd re) (snd e)) rentries entries \<Longrightarrow>
   repr h r x \<Longrightarrow>
   list_all2 (\<lambda>re e. fst re = fst e \<and> repr h (snd re) (snd e))
     (AList.update k r rentries) (AList.update k x entries)"
  by (induction rule: list_all2_induct) auto

lemma map_index_repr:
  assumes "repr_strmap h mp m"
  shows "repr h (fst (map_index_st h mp k)) (fst (map_index m k)) \<and>
     snd (map_index_st h mp k) = snd (map_index m k)"
proof (cases mp)
  case None
  with assms show ?thesis
    by (simp add: map_index_st_def map_index_def strmap_entries_def repr.repr_Nil)
next
  case (Some p)
  with assms obtain entries where m: "m = Some entries"
    by (cases m) simp_all
  with assms Some obtain rentries where ob: "object_at h p = Some (OStrMap rentries)"
    and rel: "list_all2 (\<lambda>re e. fst re = fst e \<and> repr h (snd re) (snd e)) rentries entries"
    by (auto simp add: repr_strmap_Some)
  from map_of_repr [OF rel, of k] Some m ob show ?thesis
    by (auto simp add: map_index_st_def map_index_def strmap_entries_def repr.repr_Nil)
qed

lemma toStrMap_range_repr:
  "list_all2 (\<lambda>re e. fst re = fst e \<and> repr h0 (snd re) (snd e)) rentries entries \<Longrightarrow>
   list_all2 (\<lambda>re e. fst re = fst e \<and> repr h0 (snd re) (snd e)) racc acc \<Longrightarrow>
   object_at h strMap = Some (OStrMap racc) \<Longrightarrow>
   (fst (toStrMap_range_st rentries strMap h) = None \<and> toStrMap_range entries acc = None) \<or>
   (\<exists>racc' acc'.
      fst (toStrMap_range_st rentries strMap h) = Some strMap \<and>
      toStrMap_range entries acc = Some acc' \<and>
      object_at (snd (toStrMap_range_st rentries strMap h)) strMap = Some (OStrMap racc') \<and>
      list_all2 (\<lambda>re e. fst re = fst e \<and> repr h0 (snd re) (snd e)) racc' acc')"
proof (induction arbitrary: racc acc h rule: list_all2_induct)
  case Nil
  then show ?case by simp
next
  case (Cons re rentries e entries)
  obtain k r where re: "re = (k, r)" by (cases re)
  obtain k' x where e: "e = (k', x)" by (cases e)
  from Cons.hyps(1) re e have k: "k' = k" and rx: "repr h0 r x" by simp_all
  show ?case
  proof (cases "assert_key_string k")
    case (Pair asStr ok)
    show ?thesis
    proof (cases ok)
      case False
      with Pair re e k show ?thesis by simp
    next
      case True
      let ?h = "map_assign h strMap asStr r"
      from Cons.prems(2) have at: "object_at ?h strMap = Some (OStrMap (AList.update asStr r racc))"
        by (simp add: map_assign_def object_at_def split: if_splits)
      from Cons.prems(1) rx
      have "list_all2 (\<lambda>re e. fst re = fst e \<and> repr h0 (snd re) (snd e))
          (AList.update asStr r racc) (AList.update asStr x acc)"
        by (rule update_repr)
      from Cons.IH [OF this at] Pair True re e k show ?thesis by simp
    qed
  qed
qed

lemma toStrMap_repr:
  assumes "repr h r x"
  shows "repr_strmap (snd (toStrMap_st h r)) (fst (toStrMap_st h r)) (toStrMap x)"
  using assms
proof (cases rule: repr.cases)
  case (repr_StrMap p rentries entries)
  with assms show ?thesis
    by (simp add: toStrMap_st_def toStrMap_def repr_strmap_def)
next
  case repr_IMap_nil
  then show ?thesis
    by (simp add: toStrMap_st_def toStrMap_def make_strmap_def alloc_def imap_entries_def
        range_entries_def repr_strmap_Some object_at_def)
next
  case (repr_IMap p rentries entries)
  let ?h1 = "h @ [OStrMap []]"
  let ?res = "toStrMap_range_st rentries (length h) ?h1"
  from repr_IMap(3) have p: "p < length h"
    by (simp add: object_at_def split: if_splits)
  with repr_IMap(3) have entries1: "imap_entries ?h1 (Some p) = rentries"
    by (simp add: imap_entries_def object_at_def nth_append)
  have conv: "toStrMap_st h r = ?res"
    by (simp add: repr_IMap(1) toStrMap_st_def make_strmap_def alloc_def entries1)
  have pure: "toStrMap x = toStrMap_range entries []"
    by (simp add: repr_IMap(2) toStrMap_def range_entries_def)
  have "data_unchanged h ?h1"
    using data_unchanged_alloc [OF data_unchanged_refl, of h "OStrMap []"]
    by (simp add: alloc_def)
  then have unchanged: "data_unchanged h (snd ?res)"
    by (rule data_unchanged_toStrMap_range_st) simp
  have "object_at ?h1 (length h) = Some (OStrMap [])"
    by (simp add: object_at_def)
  from toStrMap_range_repr [OF repr_IMap(4) _ this, of "[]"]
  consider "fst ?res = None" and "toStrMap_range entries [] = None"
    | racc' acc' where "fst ?res = Some (length h)" and "toStrMap_range entries [] = Some acc'"
      and "object_at (snd ?res) (length h) = Some (OStrMap racc')"
      and "list_all2 (\<lambda>re e. fst re = fst e \<and> repr h (snd re) (snd e)) racc' acc'"
    by auto
  then show ?thesis
  proof cases
    case 1
    with conv pure show ?thesis by simp
  next
    case 2
    from 2(4) unchanged
    have "list_all2 (\<lambda>re e. fst re = fst e \<and> repr (snd ?res) (snd re) (snd e)) racc' acc'"
      by (auto elim!: list_all2_mono intro: repr_unchanged)
    with 2 conv pure show ?thesis
      by (auto simp add: repr_strmap_Some)
  qed
qed (simp_all add: toStrMap_st_def toStrMap_def)

lemma getValueWithCompositeKey_repr:
  "repr_strmap h mp m \<Longrightarrow>
   (case getValueWithCompositeKey_st h mp keyChunks current of
      (Inl e, h') \<Rightarrow> getValueWithCompositeKey m keyChunks current = Inl e
    | (Inr r, h') \<Rightarrow>
        (\<exists>x. getValueWithCompositeKey m keyChunks current = Inr x \<and> repr h' r x))"
proof (induction h mp keyChunks current arbitrary: m rule: getValueWithCompositeKey_st.induct)
  case (1 h mp keyChunks current)
  let ?k = "keyChunks ! nat current"
  let ?rdata = "fst (map_index_st h mp ?k)"
  let ?data = "fst (map_index m ?k)"
  from "1.prems" have data: "repr h ?rdata ?data"
    by (simp add: map_index_repr)
  show ?case
  proof (cases "current < 0 \<or> int (length keyChunks) \<le> current")
    case True
    then show ?thesis
      by (subst getValueWithCompositeKey_st.simps, subst getValueWithCompositeKey.simps) simp
  next
    case in_range: False
    show ?thesis
    proof (cases "current = int (length keyChunks) - 1")
      case True
      with in_range data show ?thesis
        by (subst getValueWithCompositeKey_st.simps, subst getValueWithCompositeKey.simps) simp
    next
      case False
      obtain res h' where conv: "toStrMap_st h ?rdata = (res, h')"
        by (cases "toStrMap_st h ?rdata")
      from toStrMap_repr [OF data] conv have view: "repr_strmap h' res (toStrMap ?data)"
        by simp
      show ?thesis
      proof (cases res)
        case None
        with view have "toStrMap ?data = None" by simp
        with None in_range False conv show ?thesis
          by (subst getValueWithCompositeKey_st.simps, subst getValueWithCompositeKey.simps)
            (simp add: repr.repr_Nil)
      next
        case (Some data')
        with view obtain entries where pure: "toStrMap ?data = Some entries"
          by (cases "toStrMap ?data") simp_all
        have store_eq: "getValueWithCompositeKey_st h mp keyChunks current =
            getValueWithCompositeKey_st h' (Some data') keyChunks (current + 1)"
          using in_range False conv Some
          by (subst getValueWithCompositeKey_st.simps) simp
        have pure_eq: "getValueWithCompositeKey m keyChunks current =
            getValueWithCompositeKey (Some entries) keyChunks (current + 1)"
          using in_range False pure
          by (subst getValueWithCompositeKey.simps) simp
        from "1.IH" [OF in_range refl False conv [symmetric] Some, of "Some entries"]
          view Some pure
        have "case getValueWithCompositeKey_st h' (Some data') keyChunks (current + 1) of
            (Inl e, h'') \<Rightarrow> getValueWithCompositeKey (Some entries) keyChunks (current + 1) = Inl e
          | (Inr r, h'') \<Rightarrow>
              (\<exists>x. getValueWithCompositeKey (Some entries) keyChunks (current + 1) = Inr x \<and>
                 repr h'' r x)"
          by simp
        then show ?thesis
          by (simp only: store_eq pure_eq)
      qed
    qed
  qed
qed

text \<open>
  \<^verbatim>\<open>Get\<close> over the store and \<^verbatim>\<open>Get\<close> over the tree that the store holds return the
  same: the same panic, or a reference that stands for the returned tree.
\<close>

lemma Config_Get_repr:
  assumes "repr_strmap h (Config_st_data c) (Config_data c')"
  shows "case Config_Get_st h c k of
      (Inl e, h') \<Rightarrow> Config_Get c' k = Inl e
    | (Inr cv, h') \<Rightarrow>
        (\<exists>cv'. Config_Get c' k = Inr cv' \<and>
           repr h' (ConfigValue_st_v cv) (ConfigValue_v cv'))"
proof -
  from assms have literal:
    "repr h (fst (map_index_st h (Config_st_data c) k)) (fst (map_index (Config_data c') k))"
    "snd (map_index_st h (Config_st_data c) k) = snd (map_index (Config_data c') k)"
    by (simp_all add: map_index_repr)
  show ?thesis
  proof (cases "snd (map_index (Config_data c') k)")
    case True
    with literal show ?thesis
      by (cases "map_index_st h (Config_st_data c) k"; cases "map_index (Config_data c') k")
        (simp add: Config_Get_st_def Config_Get_def)
  next
    case False
    let ?r = "getValueWithCompositeKey_st h (Config_st_data c) (Split k SEP) 0"
    from getValueWithCompositeKey_repr [OF assms, of "Split k SEP" 0] False literal
    show ?thesis
      by (cases "map_index_st h (Config_st_data c) k"; cases "map_index (Config_data c') k";
          cases ?r; cases "fst ?r")
        (auto simp add: Config_Get_st_def Config_Get_def)
  qed
qed
text \<open>The small store holds a tree: the relation is not empty of maps and slices.\<close>

lemma small_store_repr:
  "repr_strmap small_store (Some 0)
     (Some [(''a'', VIMap (Some [(KString ''b'', VInt 1)])), (''l'', VSlice [VInt 7, VInt 8])])"
proof -
  have sec: "repr small_store (RIMap (Some 1)) (VIMap (Some [(KString ''b'', VInt 1)]))"
    by (rule repr.repr_IMap [where rentries = "[(KString ''b'', RInt 1)]"])
      (simp_all add: small_store_def object_at_def repr.repr_Int)
  have lst: "repr small_store (RSlice \<lparr>slice_array = 2, slice_off = 0, slice_len = 2\<rparr>)
      (VSlice [VInt 7, VInt 8])"
    by (rule repr.repr_Slice)
      (simp_all add: small_store_def array_elems_def object_at_def repr.repr_Int)
  have "object_at small_store 0 =
      Some (OStrMap [(''a'', RIMap (Some 1)),
                     (''l'', RSlice \<lparr>slice_array = 2, slice_off = 0, slice_len = 2\<rparr>)])"
    by (simp add: small_store_def object_at_def)
  with sec lst show ?thesis
    by (simp add: repr_strmap_Some)
qed
inductive_cases repr_SliceE: "repr h (RSlice a) x"

lemma repr_Slice_iff:
  "repr h (RSlice a) (VSlice xs) \<longleftrightarrow>
     slice_off a + slice_len a \<le> length (array_elems h (slice_array a)) \<and>
     list_all2 (repr h)
       (take (slice_len a) (drop (slice_off a) (array_elems h (slice_array a)))) xs"
  by (auto intro: repr.repr_Slice elim: repr_SliceE)

lemma mapGetKeys_range_st_fills:
  "object_at h (slice_array a) = Some (OArray elems) \<Longrightarrow> slice_off a = 0 \<Longrightarrow>
   slice_len a + length entries \<le> length elems \<Longrightarrow>
   (\<exists>elems'.
      fst (mapGetKeys_range_st entries a h) =
        \<lparr>slice_array = slice_array a, slice_off = 0,
         slice_len = slice_len a + length entries\<rparr> \<and>
      object_at (snd (mapGetKeys_range_st entries a h)) (slice_array a) = Some (OArray elems') \<and>
      length elems' = length elems \<and>
      take (slice_len a + length entries) elems' =
        take (slice_len a) elems @ map (\<lambda>e. RString (fst e)) entries)"
proof (induction entries arbitrary: a h elems)
  case Nil
  then show ?case by simp
next
  case (Cons e entries)
  obtain k x where e: "e = (k, x)" by (cases e)
  let ?a = "a\<lparr>slice_len := slice_len a + 1\<rparr>"
  let ?elems = "elems[slice_len a := RString k]"
  let ?h = "h[slice_array a := OArray ?elems]"
  from Cons.prems have room: "slice_len a < length elems" by simp
  from Cons.prems(1) have inside: "slice_array a < length h"
    by (simp add: object_at_def split: if_splits)
  from Cons.prems room have app: "append_st h a (RString k) = (?a, ?h)"
    by (simp add: append_st_def array_elems_def Let_def)
  from inside have at: "object_at ?h (slice_array ?a) = Some (OArray ?elems)"
    by (simp add: object_at_def)
  from Cons.prems have "slice_off ?a = 0" and "slice_len ?a + length entries \<le> length ?elems"
    by simp_all
  from Cons.IH [OF at this] obtain elems' where
    res: "fst (mapGetKeys_range_st entries ?a ?h) =
        \<lparr>slice_array = slice_array a, slice_off = 0,
         slice_len = slice_len a + 1 + length entries\<rparr>"
    and ob: "object_at (snd (mapGetKeys_range_st entries ?a ?h)) (slice_array a) =
        Some (OArray elems')"
    and len: "length elems' = length elems"
    and filled: "take (slice_len a + 1 + length entries) elems' =
        take (slice_len a + 1) ?elems @ map (\<lambda>e. RString (fst e)) entries"
    by auto
  from room have "take (slice_len a + 1) ?elems = take (slice_len a) elems @ [RString k]"
    by (simp add: take_Suc_conv_app_nth)
  with res ob len filled e app show ?case
    by (auto simp add: add.assoc)
qed

lemma keys_repr:
  "list_all2 (repr h) (map RString ks) (map VString ks)"
  by (induction ks) (simp_all add: repr.repr_String)

lemma mapGetKeys_repr:
  assumes "repr_strmap h (Some p) (Some entries)"
  shows "repr (snd (mapGetKeys_st h (Some p))) (RSlice (fst (mapGetKeys_st h (Some p))))
     (VSlice (mapGetKeys (Some entries)))"
proof -
  from assms obtain rentries where ob: "object_at h p = Some (OStrMap rentries)"
    and rel: "list_all2 (\<lambda>re e. fst re = fst e \<and> repr h (snd re) (snd e)) rentries entries"
    by (auto simp add: repr_strmap_Some)
  let ?n = "length rentries"
  let ?h1 = "h @ [OArray (replicate ?n RNil)]"
  let ?a = "\<lparr>slice_array = length h, slice_off = 0, slice_len = 0\<rparr>"
  let ?res = "mapGetKeys_range_st rentries ?a ?h1"
  from ob have p: "p < length h"
    by (simp add: object_at_def split: if_splits)
  with ob have entries: "strmap_entries h (Some p) = rentries"
    and entries1: "strmap_entries ?h1 (Some p) = rentries"
    by (simp_all add: strmap_entries_def object_at_def nth_append)
  have conv: "mapGetKeys_st h (Some p) = ?res"
    by (simp add: mapGetKeys_st_def make_slice_def alloc_def entries entries1)
  have "object_at ?h1 (slice_array ?a) = Some (OArray (replicate ?n RNil))"
    by (simp add: object_at_def)
  from mapGetKeys_range_st_fills [OF this, of rentries] obtain elems' where
    res: "fst ?res = \<lparr>slice_array = length h, slice_off = 0, slice_len = ?n\<rparr>"
    and at: "object_at (snd ?res) (length h) = Some (OArray elems')"
    and len: "length elems' = ?n"
    and filled: "take ?n elems' = map (\<lambda>e. RString (fst e)) rentries"
    by auto
  from rel have keys: "map fst rentries = map fst entries"
    by (induction rule: list_all2_induct) simp_all
  have "list_all2 (repr (snd ?res)) (map RString (map fst rentries))
      (map VString (map fst entries))"
    by (simp only: keys keys_repr)
  then have "list_all2 (repr (snd ?res)) (map (\<lambda>e. RString (fst e)) rentries)
      (map (\<lambda>e. VString (fst e)) entries)"
    by (simp add: comp_def)
  with res at len filled show ?thesis
    by (simp add: conv repr_Slice_iff array_elems_def mapGetKeys_keys range_entries_def)
qed
lemma repr_assert_slice: "repr h r x \<Longrightarrow> snd (rassert_slice r) = snd (assert_slice x)"
  by (induction rule: repr.induct) simp_all

lemma repr_assert_string: "repr h r x \<Longrightarrow> rassert_string r = assert_string x"
  by (induction rule: repr.induct) simp_all

lemma repr_strmap_unchanged:
  "repr_strmap h mp m \<Longrightarrow> data_unchanged h h' \<Longrightarrow> repr_strmap h' mp m"
  unfolding repr_strmap_def by (rule repr_unchanged)

text \<open>
  \<^verbatim>\<open>Iterate\<close> over the store and over the tree give iterators that stand for each
  other.
\<close>

lemma Iterate_repr:
  assumes "repr h (ConfigValue_st_v cv) (ConfigValue_v cv')"
  shows "repr_Iterator (snd (ConfigValue_Iterate_st h cv)) (fst (ConfigValue_Iterate_st h cv))
     (ConfigValue_Iterate cv')"
proof (cases "snd (rassert_slice (ConfigValue_st_v cv))")
  case True
  then obtain a where r: "ConfigValue_st_v cv = RSlice a"
    by (cases "ConfigValue_st_v cv") simp_all
  with assms obtain xs where x: "ConfigValue_v cv' = VSlice xs"
    by (auto elim: repr_SliceE)
  have "data_unchanged h (h @ [OListIterator a 0])"
    using data_unchanged_alloc [OF data_unchanged_refl, of h "OListIterator a 0"]
    by (simp add: alloc_def)
  with assms r x have "repr (h @ [OListIterator a 0]) (RSlice a) (VSlice xs)"
    by (auto intro: repr_unchanged)
  with r x show ?thesis
    by (simp add: ConfigValue_Iterate_st_def ConfigValue_Iterate_def alloc_def
        repr_ListIterator_def object_at_def)
next
  case False
  with repr_assert_slice [OF assms] have no_slice: "\<not> snd (assert_slice (ConfigValue_v cv'))"
    by simp
  obtain res h1 where conv: "toStrMap_st h (ConfigValue_st_v cv) = (res, h1)"
    by (cases "toStrMap_st h (ConfigValue_st_v cv)")
  from toStrMap_repr [OF assms] conv
  have view: "repr_strmap h1 res (toStrMap (ConfigValue_v cv'))"
    by simp
  show ?thesis
  proof (cases res)
    case None
    with view have "toStrMap (ConfigValue_v cv') = None" by simp
    with None False no_slice conv show ?thesis
      by (cases "rassert_slice (ConfigValue_st_v cv)"; cases "assert_slice (ConfigValue_v cv')")
        (simp add: ConfigValue_Iterate_st_def ConfigValue_Iterate_def)
  next
    case (Some mp)
    with view obtain entries where pure: "toStrMap (ConfigValue_v cv') = Some entries"
      by (cases "toStrMap (ConfigValue_v cv')") simp_all
    let ?keys = "mapGetKeys_st h1 (Some mp)"
    let ?it = "OListIterator (fst ?keys) 0"
    let ?h3 = "snd ?keys @ [?it]"
    from view Some pure have map1: "repr_strmap h1 (Some mp) (Some entries)" by simp
    then have keys: "repr (snd ?keys) (RSlice (fst ?keys)) (VSlice (mapGetKeys (Some entries)))"
      by (rule mapGetKeys_repr)
    have step2: "data_unchanged h1 (snd ?keys)"
      by (rule data_unchanged_mapGetKeys_st)
    have step3: "data_unchanged (snd ?keys) ?h3"
      using data_unchanged_alloc [OF data_unchanged_refl, of "snd ?keys" ?it]
      by (simp add: alloc_def)
    from keys step3 have "repr ?h3 (RSlice (fst ?keys)) (VSlice (mapGetKeys (Some entries)))"
      by (rule repr_unchanged)
    moreover from map1 step2 step3 have "repr_strmap ?h3 (Some mp) (Some entries)"
      by (blast intro: repr_strmap_unchanged)
    ultimately show ?thesis
      using Some False no_slice conv pure
      by (cases "rassert_slice (ConfigValue_st_v cv)"; cases "assert_slice (ConfigValue_v cv')")
        (simp add: ConfigValue_Iterate_st_def ConfigValue_Iterate_def alloc_def split_beta
          repr_ListIterator_def object_at_def)
  qed
qed

text \<open>The methods of iterators that stand for each other return the same.\<close>

lemma ListIterator_repr:
  assumes "repr_ListIterator h p it"
  shows "ListIterator_Finished_st h p = ListIterator_Finished it"
    and "ListIterator_Index_st h p = ListIterator_Index it"
    and "case ListIterator_Value_st h p of
           Inl e \<Rightarrow> ListIterator_Value it = Inl e
         | Inr cv \<Rightarrow>
             (\<exists>cv'. ListIterator_Value it = Inr cv' \<and>
                repr h (ConfigValue_st_v cv) (ConfigValue_v cv'))"
    and "repr_ListIterator (ListIterator_Next_st h p) p (ListIterator_Next it)"
proof -
  from assms obtain a where ob: "object_at h p = Some (OListIterator a (ListIterator_i it))"
    and room: "slice_off a + slice_len a \<le> length (array_elems h (slice_array a))"
    and elems: "list_all2 (repr h)
      (take (slice_len a) (drop (slice_off a) (array_elems h (slice_array a))))
      (ListIterator_a it)"
    by (auto simp add: repr_ListIterator_def repr_Slice_iff)
  from elems room have len: "length (ListIterator_a it) = slice_len a"
    by (auto dest: list_all2_lengthD)
  from ob have a: "ListIterator_st_a h p = a" and i: "ListIterator_st_i h p = ListIterator_i it"
    by (simp_all add: ListIterator_st_a_def ListIterator_st_i_def)
  show finished: "ListIterator_Finished_st h p = ListIterator_Finished it"
    by (simp add: ListIterator_Finished_st_def ListIterator_Finished_def a i len)
  show "ListIterator_Index_st h p = ListIterator_Index it"
    by (simp add: ListIterator_Index_st_def ListIterator_Index_def i)
  show "case ListIterator_Value_st h p of
      Inl e \<Rightarrow> ListIterator_Value it = Inl e
    | Inr cv \<Rightarrow>
        (\<exists>cv'. ListIterator_Value it = Inr cv' \<and>
           repr h (ConfigValue_st_v cv) (ConfigValue_v cv'))"
  proof (cases "ListIterator_i it < 0 \<or> int (slice_len a) \<le> ListIterator_i it")
    case True
    then show ?thesis
      by (auto simp add: ListIterator_Value_st_def ListIterator_Value_def slice_index_def a i len)
  next
    case False
    then have within: "nat (ListIterator_i it) < slice_len a" by auto
    with room have inside:
      "slice_off a + nat (ListIterator_i it) < length (array_elems h (slice_array a))"
      by simp
    from within room
    have "take (slice_len a) (drop (slice_off a) (array_elems h (slice_array a))) !
        nat (ListIterator_i it) =
        array_elems h (slice_array a) ! (slice_off a + nat (ListIterator_i it))"
      by simp
    with list_all2_nthD [OF elems, of "nat (ListIterator_i it)"] within room
    have "repr h (array_elems h (slice_array a) ! (slice_off a + nat (ListIterator_i it)))
        (ListIterator_a it ! nat (ListIterator_i it))"
      by simp
    with False inside show ?thesis
      by (simp add: ListIterator_Value_st_def ListIterator_Value_def slice_index_def a i len)
  qed
  show "repr_ListIterator (ListIterator_Next_st h p) p (ListIterator_Next it)"
  proof (cases "ListIterator_Finished it")
    case True
    with finished assms show ?thesis
      by (simp add: ListIterator_Next_st_def ListIterator_Next_def)
  next
    case False
    let ?h = "h[p := OListIterator a (ListIterator_i it + 1)]"
    from False finished ob have next_st: "ListIterator_Next_st h p = ?h"
      by (simp add: ListIterator_Next_st_def)
    have "data_unchanged h (ListIterator_Next_st h p)"
      by (rule data_unchanged_ListIterator_Next_st)
    with assms have "repr (ListIterator_Next_st h p) (RSlice a) (VSlice (ListIterator_a it))"
      using ob by (auto simp add: repr_ListIterator_def intro: repr_unchanged)
    moreover from ob have "object_at ?h p = Some (OListIterator a (ListIterator_i it + 1))"
      by (simp add: object_at_def split: if_splits)
    ultimately show ?thesis
      using False by (auto simp add: next_st repr_ListIterator_def ListIterator_Next_def)
  qed
qed

lemma Iterator_repr:
  assumes "repr_Iterator h its it"
  shows "Iterator_Finished_st h its = Iterator_Finished it"
    and "Iterator_Index_st h its = Iterator_Index it"
    and "Iterator_Key_st h its = Iterator_Key it"
    and "case Iterator_Value_st h its of
           Inl e \<Rightarrow> Iterator_Value it = Inl e
         | Inr cv \<Rightarrow>
             (\<exists>cv'. Iterator_Value it = Inr cv' \<and>
                repr h (ConfigValue_st_v cv) (ConfigValue_v cv'))"
    and "repr_Iterator (Iterator_Next_st h its) its (Iterator_Next it)"
proof -
  consider (list) p li where "its = ListIt_st p" and "it = ListIt li"
      and "repr_ListIterator h p li"
    | (map) p mp mi where "its = MapIt_st p mp" and "it = MapIt mi"
      and "repr_ListIterator h p (MapIterator_ListIterator mi)"
      and "repr_strmap h mp (MapIterator_m mi)"
    | (empty) "its = EmptyIt_st" and "it = EmptyIt"
    using assms by (cases its; cases it) auto
  then have "Iterator_Finished_st h its = Iterator_Finished it \<and>
      Iterator_Index_st h its = Iterator_Index it \<and>
      Iterator_Key_st h its = Iterator_Key it \<and>
      (case Iterator_Value_st h its of
         Inl e \<Rightarrow> Iterator_Value it = Inl e
       | Inr cv \<Rightarrow>
           (\<exists>cv'. Iterator_Value it = Inr cv' \<and>
              repr h (ConfigValue_st_v cv) (ConfigValue_v cv'))) \<and>
      repr_Iterator (Iterator_Next_st h its) its (Iterator_Next it)"
  proof cases
    case list
    with ListIterator_repr [OF list(3)] show ?thesis
      by (simp add: ListIterator_Key_st_def ListIterator_Key_def cong: sum.case_cong)
  next
    case map
    note li = ListIterator_repr [OF map(3)]
    have key: "MapIterator_Key_st h p mp = MapIterator_Key mi"
      using li(3)
      by (auto simp add: MapIterator_Key_st_def MapIterator_Key_def ConfigValue_String_st_def
          ConfigValue_String_def repr_assert_string split: sum.splits)
    have "case MapIterator_Value_st h p mp of
        Inl e \<Rightarrow> MapIterator_Value mi = Inl e
      | Inr cv \<Rightarrow>
          (\<exists>cv'. MapIterator_Value mi = Inr cv' \<and>
             repr h (ConfigValue_st_v cv) (ConfigValue_v cv'))"
      using map_index_repr [OF map(4)]
      by (simp add: MapIterator_Value_st_def MapIterator_Value_def key split: sum.splits)
    moreover have "repr_strmap (ListIterator_Next_st h p) mp (MapIterator_m mi)"
      using map(4) data_unchanged_ListIterator_Next_st by (rule repr_strmap_unchanged)
    ultimately show ?thesis
      using map li key by (simp cong: sum.case_cong)
  next
    case empty
    then show ?thesis
      by (simp add: EmptyIterator_Finished_def EmptyIterator_Index_def EmptyIterator_Key_def
          EmptyIterator_Value_def repr.repr_Nil)
  qed
  then show "Iterator_Finished_st h its = Iterator_Finished it"
    and "Iterator_Index_st h its = Iterator_Index it"
    and "Iterator_Key_st h its = Iterator_Key it"
    and "case Iterator_Value_st h its of
           Inl e \<Rightarrow> Iterator_Value it = Inl e
         | Inr cv \<Rightarrow>
             (\<exists>cv'. Iterator_Value it = Inr cv' \<and>
                repr h (ConfigValue_st_v cv) (ConfigValue_v cv'))"
    and "repr_Iterator (Iterator_Next_st h its) its (Iterator_Next it)"
    by simp_all
qed
text \<open>The accessors of values that stand for each other return the same.\<close>

lemma accessors_repr:
  assumes "repr h (ConfigValue_st_v cv) (ConfigValue_v cv')"
  shows "ConfigValue_IsSet_st cv = ConfigValue_IsSet cv'"
    and "ConfigValue_IsSlice_st cv = ConfigValue_IsSlice cv'"
    and "ConfigValue_IsMap_st cv = ConfigValue_IsMap cv'"
    and "ConfigValue_Int_st cv = ConfigValue_Int cv'"
    and "ConfigValue_String_st cv = ConfigValue_String cv'"
    and "ConfigValue_Float_st cv = ConfigValue_Float cv'"
    and "ConfigValue_Bool_st cv = ConfigValue_Bool cv'"
    and "ConfigValue_MustInt_st cv = ConfigValue_MustInt cv'"
    and "ConfigValue_MustString_st cv = ConfigValue_MustString cv'"
    and "ConfigValue_MustFloat_st cv = ConfigValue_MustFloat cv'"
    and "ConfigValue_MustBool_st cv = ConfigValue_MustBool cv'"
    and "ConfigValue_DefInt_st cv defInt = ConfigValue_DefInt cv' defInt"
    and "ConfigValue_DefString_st cv defString = ConfigValue_DefString cv' defString"
    and "ConfigValue_DefFloat_st cv defFloat = ConfigValue_DefFloat cv' defFloat"
    and "ConfigValue_DefBool_st cv defBool = ConfigValue_DefBool cv' defBool"
    and "ConfigValue_Count_st cv = ConfigValue_Count cv'"
proof -
  have tags: "rassert_int r = assert_int x" "rassert_string r = assert_string x"
    "rassert_float64 r = assert_float64 x" "rassert_bool r = assert_bool x"
    "snd (rassert_slice r) = snd (assert_slice x)"
    "snd (rassert_strmap r) = snd (assert_strmap x)"
    "snd (rassert_imap r) = snd (assert_imap x)"
    "(r = RNil) = (x = VNil)"
    "int (slice_len (fst (rassert_slice r))) = int (length (fst (assert_slice x)))"
    if "repr h r x" for r x
    using that by (induction rule: repr.induct) (auto dest: list_all2_lengthD)
  note same = tags [OF assms]
  show "ConfigValue_IsSet_st cv = ConfigValue_IsSet cv'"
    by (simp add: ConfigValue_IsSet_st_def ConfigValue_IsSet_def same)
  then have set: "ConfigValue_IsSet_st cv = ConfigValue_IsSet cv'" .
  show "ConfigValue_IsSlice_st cv = ConfigValue_IsSlice cv'"
    by (simp add: ConfigValue_IsSlice_st_def ConfigValue_IsSlice_def same)
  show "ConfigValue_IsMap_st cv = ConfigValue_IsMap cv'"
    by (simp add: ConfigValue_IsMap_st_def ConfigValue_IsMap_def same)
  show "ConfigValue_Int_st cv = ConfigValue_Int cv'"
    by (simp add: ConfigValue_Int_st_def ConfigValue_Int_def same)
  show "ConfigValue_String_st cv = ConfigValue_String cv'"
    by (simp add: ConfigValue_String_st_def ConfigValue_String_def same)
  show "ConfigValue_Float_st cv = ConfigValue_Float cv'"
    by (simp add: ConfigValue_Float_st_def ConfigValue_Float_def same)
  show "ConfigValue_Bool_st cv = ConfigValue_Bool cv'"
    by (simp add: ConfigValue_Bool_st_def ConfigValue_Bool_def same)
  show "ConfigValue_MustInt_st cv = ConfigValue_MustInt cv'"
    by (simp add: ConfigValue_MustInt_st_def ConfigValue_MustInt_def same set)
  show "ConfigValue_MustString_st cv = ConfigValue_MustString cv'"
    by (simp add: ConfigValue_MustString_st_def ConfigValue_MustString_def same set)
  show "ConfigValue_MustFloat_st cv = ConfigValue_MustFloat cv'"
    by (simp add: ConfigValue_MustFloat_st_def ConfigValue_MustFloat_def same set)
  show "ConfigValue_MustBool_st cv = ConfigValue_MustBool cv'"
    by (simp add: ConfigValue_MustBool_st_def ConfigValue_MustBool_def same set)
  show "ConfigValue_DefInt_st cv defInt = ConfigValue_DefInt cv' defInt"
    by (simp add: ConfigValue_DefInt_st_def ConfigValue_DefInt_def same)
  show "ConfigValue_DefString_st cv defString = ConfigValue_DefString cv' defString"
    by (simp add: ConfigValue_DefString_st_def ConfigValue_DefString_def same)
  show "ConfigValue_DefFloat_st cv defFloat = ConfigValue_DefFloat cv' defFloat"
    by (simp add: ConfigValue_DefFloat_st_def ConfigValue_DefFloat_def same)
  show "ConfigValue_DefBool_st cv defBool = ConfigValue_DefBool cv' defBool"
    by (simp add: ConfigValue_DefBool_st_def ConfigValue_DefBool_def same)
  show "ConfigValue_Count_st cv = ConfigValue_Count cv'"
    using same(5,9)
    by (cases "rassert_slice (ConfigValue_st_v cv)"; cases "assert_slice (ConfigValue_v cv')")
      (auto simp add: ConfigValue_Count_st_def ConfigValue_Count_def)
qed
lemma Config_repr:
  assumes "repr h (ConfigValue_st_v cv) (ConfigValue_v cv')"
  shows "repr_strmap (snd (ConfigValue_Config_st h cv))
     (Config_st_data (fst (ConfigValue_Config_st h cv)))
     (Config_data (ConfigValue_Config cv'))"
  using toStrMap_repr [OF assms]
  by (simp add: ConfigValue_Config_st_def ConfigValue_Config_def NewConfig_st_def NewConfig_def
      split_beta)

end
